theory Spec2Isabelle
  imports Complex_Main
begin

section \<open>Python values shared by the recognizer modules\<close>

text \<open>
  A Python float is a finite number, one of the two infinities, or NaN. The scores the
  code compares are log-likelihoods returned by \<^verbatim>\<open>model.score\<close> and the
  sentinels \<^verbatim>\<open>float('-Inf')\<close> and \<^verbatim>\<open>float('Inf')\<close>.
\<close>

datatype pyfloat = NaN | NegInf | Fin real | PosInf

text \<open>Python's \<^verbatim>\<open>a > b\<close> on floats: every comparison with NaN is false.\<close>

fun fgt :: "pyfloat \<Rightarrow> pyfloat \<Rightarrow> bool" where
  "fgt NaN _ = False"
| "fgt _ NaN = False"
| "fgt NegInf _ = False"
| "fgt _ NegInf = True"
| "fgt PosInf PosInf = False"
| "fgt PosInf (Fin b) = True"
| "fgt (Fin a) PosInf = False"
| "fgt (Fin a) (Fin b) = (b < a)"

text \<open>Python's \<^verbatim>\<open>a < b\<close> on floats.\<close>

definition flt :: "pyfloat \<Rightarrow> pyfloat \<Rightarrow> bool" where
  "flt a b = fgt b a"

text \<open>The exceptions the modelled code can meet; a bare \<^verbatim>\<open>except:\<close> catches all.\<close>

datatype error = AttributeError | ValueError | NameError | ZeroDivisionError | OtherError

section \<open>my_recognizer.py\<close>

text \<open>
  A trained model is used only through \<^verbatim>\<open>model.score(X, lengths)\<close>, which returns a
  float or raises (a \<^verbatim>\<open>None\<close> entry of the dict raises AttributeError on the
  attribute access). \<open>'x\<close> is the pair \<^verbatim>\<open>(X, lengths)\<close>. A dict is an association
  list in insertion order, the order \<^verbatim>\<open>.items()\<close> iterates in.
\<close>

type_synonym 'x hmm = "'x \<Rightarrow> error + pyfloat"

text \<open>
  The inner loop of \<^verbatim>\<open>recognize\<close> (lines 28 to 36) over \<^verbatim>\<open>models.items()\<close>,
  with the three variables it updates: \<^verbatim>\<open>probability\<close>, \<^verbatim>\<open>best_score\<close> and
  \<^verbatim>\<open>best_guess\<close>.
\<close>

fun score_models ::
  "(string \<times> 'x hmm) list \<Rightarrow> 'x \<Rightarrow> (string \<rightharpoonup> pyfloat) \<Rightarrow> pyfloat \<Rightarrow> string option
     \<Rightarrow> (string \<rightharpoonup> pyfloat) \<times> string option" where
  "score_models [] x probability best_score best_guess = (probability, best_guess)"
| "score_models ((word, model) # rest) x probability best_score best_guess =
     (let score = (case model x of Inr s \<Rightarrow> s | Inl e \<Rightarrow> NegInf);
          probability' = probability(word \<mapsto> score)
      in if fgt score best_score
         then score_models rest x probability' score (Some word)
         else score_models rest x probability' best_score best_guess)"

text \<open>One pass of the outer loop body (lines 25 to 36) for a test item.\<close>

definition recognize_item :: "(string \<times> 'x hmm) list \<Rightarrow> 'x \<Rightarrow> (string \<rightharpoonup> pyfloat) \<times> string option" where
  "recognize_item models x = score_models models x Map.empty NegInf None"

text \<open>
  The outer loop (lines 24 to 38) over \<^verbatim>\<open>test_set.get_all_Xlengths().items()\<close>,
  appending to \<^verbatim>\<open>probabilities\<close> and \<^verbatim>\<open>guesses\<close>.
\<close>

fun recognize_loop ::
  "(string \<times> 'x hmm) list \<Rightarrow> ('w \<times> 'x) list \<Rightarrow> (string \<rightharpoonup> pyfloat) list \<Rightarrow> string option list
     \<Rightarrow> (string \<rightharpoonup> pyfloat) list \<times> string option list" where
  "recognize_loop models [] probabilities guesses = (probabilities, guesses)"
| "recognize_loop models ((word, x) # rest) probabilities guesses =
     (let (probability, best_guess) = recognize_item models x
      in recognize_loop models rest (probabilities @ [probability]) (guesses @ [best_guess]))"

text \<open>\<^verbatim>\<open>recognize(models, test_set)\<close>; \<open>words\<close> is \<^verbatim>\<open>test_set.get_all_Xlengths()\<close>.\<close>

definition recognize ::
  "(string \<times> 'x hmm) list \<Rightarrow> ('w \<times> 'x) list \<Rightarrow> (string \<rightharpoonup> pyfloat) list \<times> string option list" where
  "recognize models words = recognize_loop models words [] []"

section \<open>my_model_selectors.py\<close>

text \<open>
  A fitted \<^verbatim>\<open>GaussianHMM\<close>: \<open>n_components\<close> is the number of states given to the
  constructor, \<open>fitted\<close> stands for everything \<^verbatim>\<open>fit\<close> learned.
\<close>

datatype 'h gaussian_hmm = GaussianHMM (n_components: int) (fitted: 'h)

text \<open>
  What the module takes from hmmlearn, sklearn, numpy, math and asl_utils. Each is a
  parameter: the selectors are verified for every behaviour of these calls, raising
  included. \<open>'x\<close> is a pair \<^verbatim>\<open>(X, lengths)\<close>, \<open>'q\<close> a sequence, \<open>'i\<close> an index array of
  a fold. The arithmetic on floats is left to the parameters as well.
\<close>

record ('x, 'q, 'i, 'h) lib =
  hmm_fit :: "int \<Rightarrow> 'x \<Rightarrow> error + 'h"
  hmm_score :: "'h gaussian_hmm \<Rightarrow> 'x \<Rightarrow> error + pyfloat"
  free_params :: "'h gaussian_hmm \<Rightarrow> error + int"
  math_log :: "int \<Rightarrow> error + pyfloat"
  f_add :: "pyfloat \<Rightarrow> pyfloat \<Rightarrow> pyfloat"
  f_sub :: "pyfloat \<Rightarrow> pyfloat \<Rightarrow> pyfloat"
  f_mul :: "pyfloat \<Rightarrow> pyfloat \<Rightarrow> pyfloat"
  f_div :: "pyfloat \<Rightarrow> pyfloat \<Rightarrow> error + pyfloat"
  np_mean :: "pyfloat list \<Rightarrow> pyfloat"
  kfold_split :: "'q list \<Rightarrow> error + ('i \<times> 'i) list"
  combine_sequences :: "'i \<Rightarrow> 'q list \<Rightarrow> error + 'x"

text \<open>
  The fields of \<^verbatim>\<open>ModelSelector\<close> that \<^verbatim>\<open>select\<close> reads. \<open>X\<close> is the pair
  \<^verbatim>\<open>(self.X, self.lengths)\<close>, which \<^verbatim>\<open>SelectorCV.select\<close> reassigns.
\<close>

record ('x, 'q) selector =
  hwords :: "(string \<times> 'x) list"
  sequences :: "'q list"
  X :: "'x"
  n_constant :: int
  min_n_components :: int
  max_n_components :: int
  verbose :: bool

text \<open>
  \<^verbatim>\<open>base_model(num_states)\<close>: trains a model with \<open>num_states\<close> components on
  \<^verbatim>\<open>self.X, self.lengths\<close>; any exception gives \<^verbatim>\<open>None\<close>.
\<close>

definition base_model ::
  "('x, 'q, 'i, 'h) lib \<Rightarrow> ('x, 'q) selector \<Rightarrow> int \<Rightarrow> 'h gaussian_hmm option" where
  "base_model L S num_states =
     (case hmm_fit L num_states (X S) of
        Inl e \<Rightarrow> None
      | Inr h \<Rightarrow> Some (GaussianHMM num_states h))"

text \<open>Python's \<^verbatim>\<open>range(self.min_n_components, self.max_n_components)\<close>.\<close>

definition n_range :: "('x, 'q) selector \<Rightarrow> int list" where
  "n_range S = [min_n_components S..max_n_components S - 1]"

subsection \<open>SelectorDIC\<close>

text \<open>Lines 89 to 92: the loop over \<^verbatim>\<open>self.hwords\<close> adding up \<open>al\<close> and \<open>count\<close>.\<close>

fun dic_sum ::
  "('x, 'q, 'i, 'h) lib \<Rightarrow> 'h gaussian_hmm \<Rightarrow> (string \<times> 'x) list \<Rightarrow> pyfloat \<Rightarrow> pyfloat
     \<Rightarrow> error + pyfloat \<times> pyfloat" where
  "dic_sum L m [] al count = Inr (al, count)"
| "dic_sum L m ((w, x) # rest) al count =
     (case hmm_score L m x of
        Inl e \<Rightarrow> Inl e
      | Inr s \<Rightarrow> dic_sum L m rest (f_add L al s) (f_add L count (Fin 1)))"

text \<open>
  Lines 88 to 94, the body of the inner \<^verbatim>\<open>try\<close>. A \<^verbatim>\<open>None\<close> model raises
  AttributeError at \<^verbatim>\<open>hmm_model.score\<close>.
\<close>

definition dic_score ::
  "('x, 'q, 'i, 'h) lib \<Rightarrow> ('x, 'q) selector \<Rightarrow> 'h gaussian_hmm option \<Rightarrow> error + pyfloat" where
  "dic_score L S hmm_model =
     (case hmm_model of
        None \<Rightarrow> Inl AttributeError
      | Some m \<Rightarrow>
          (case hmm_score L m (X S) of
             Inl e \<Rightarrow> Inl e
           | Inr logL \<Rightarrow>
               (case dic_sum L m (hwords S) (Fin 0) (Fin 0) of
                  Inl e \<Rightarrow> Inl e
                | Inr (al, count) \<Rightarrow>
                    (case f_div L al count of
                       Inl e \<Rightarrow> Inl e
                     | Inr al' \<Rightarrow> Inr (f_sub L logL al')))))"

text \<open>
  Lines 83 to 98, the loop over the component counts. The list \<open>trained\<close> records the
  argument of every \<^verbatim>\<open>base_model\<close> call, in order.
\<close>

fun dic_loop ::
  "('x, 'q, 'i, 'h) lib \<Rightarrow> ('x, 'q) selector \<Rightarrow> int list \<Rightarrow> pyfloat \<Rightarrow> 'h gaussian_hmm option
     \<Rightarrow> int list \<Rightarrow> int list \<times> 'h gaussian_hmm option" where
  "dic_loop L S [] best_score best_model trained = (trained, best_model)"
| "dic_loop L S (n # ns) best_score best_model trained =
     (let hmm_model = base_model L S n;
          score = (case dic_score L S hmm_model of Inr s \<Rightarrow> s | Inl e \<Rightarrow> NegInf)
      in if fgt score best_score
         then dic_loop L S ns score hmm_model (trained @ [n])
         else dic_loop L S ns best_score best_model (trained @ [n]))"

text \<open>
  \<^verbatim>\<open>SelectorDIC.select\<close>. Nothing in the outer \<^verbatim>\<open>try\<close> raises outside the inner one
  (\<^verbatim>\<open>base_model\<close> catches everything), so the outer handler is never entered.
\<close>

definition select_dic ::
  "('x, 'q, 'i, 'h) lib \<Rightarrow> ('x, 'q) selector \<Rightarrow> int list \<times> 'h gaussian_hmm option" where
  "select_dic L S = dic_loop L S (n_range S) NegInf None []"

subsection \<open>SelectorBIC\<close>

text \<open>Lines 123 and 124, the body of the inner \<^verbatim>\<open>try\<close>.\<close>

definition bic_score ::
  "('x, 'q, 'i, 'h) lib \<Rightarrow> ('x, 'q) selector \<Rightarrow> 'h gaussian_hmm option \<Rightarrow> error + pyfloat" where
  "bic_score L S hmm_model =
     (case hmm_model of
        None \<Rightarrow> Inl AttributeError
      | Some m \<Rightarrow>
          (case free_params L m of
             Inl e \<Rightarrow> Inl e
           | Inr p \<Rightarrow>
               (case hmm_score L m (X S) of
                  Inl e \<Rightarrow> Inl e
                | Inr s \<Rightarrow>
                    (case math_log L (int (length (sequences S))) of
                       Inl e \<Rightarrow> Inl e
                     | Inr l \<Rightarrow>
                         Inr (f_add L (f_mul L (Fin (- 2)) s) (f_mul L (Fin (of_int p)) l))))))"

text \<open>Lines 120 to 128.\<close>

fun bic_loop ::
  "('x, 'q, 'i, 'h) lib \<Rightarrow> ('x, 'q) selector \<Rightarrow> int list \<Rightarrow> pyfloat \<Rightarrow> 'h gaussian_hmm option
     \<Rightarrow> int list \<Rightarrow> int list \<times> 'h gaussian_hmm option" where
  "bic_loop L S [] best_score best_model trained = (trained, best_model)"
| "bic_loop L S (n # ns) best_score best_model trained =
     (let hmm_model = base_model L S n;
          score = (case bic_score L S hmm_model of Inr s \<Rightarrow> s | Inl e \<Rightarrow> PosInf)
      in if flt score best_score
         then bic_loop L S ns score hmm_model (trained @ [n])
         else bic_loop L S ns best_score best_model (trained @ [n]))"

definition select_bic ::
  "('x, 'q, 'i, 'h) lib \<Rightarrow> ('x, 'q) selector \<Rightarrow> int list \<times> 'h gaussian_hmm option" where
  "select_bic L S = bic_loop L S (n_range S) PosInf None []"

subsection \<open>SelectorCV\<close>

text \<open>
  Lines 155 to 158, the inner \<^verbatim>\<open>try\<close> after the length test, for one fold
  \<open>(cv_train_idx, cv_test_idx)\<close>. Returned with the outcome are the selector
  (\<^verbatim>\<open>self.X, self.lengths\<close> may have been reassigned), \<open>hmm_model\<close> and the training
  record as they are when the body ends or raises.
\<close>

definition cv_try ::
  "('x, 'q, 'i, 'h) lib \<Rightarrow> ('x, 'q) selector \<Rightarrow> int \<Rightarrow> 'i \<times> 'i \<Rightarrow> 'h gaussian_hmm option \<Rightarrow> int list
     \<Rightarrow> (('x, 'q) selector \<times> 'h gaussian_hmm option \<times> int list) \<times> (error + pyfloat)" where
  "cv_try L S n cv_idx hmm_model trained =
     (case combine_sequences L (fst cv_idx) (sequences S) of
        Inl e \<Rightarrow> ((S, hmm_model, trained), Inl e)
      | Inr x \<Rightarrow>
          (let S' = S\<lparr>X := x\<rparr>;
               hmm_model' = base_model L S' n;
               trained' = trained @ [n]
           in case combine_sequences L (snd cv_idx) (sequences S') of
                Inl e \<Rightarrow> ((S', hmm_model', trained'), Inl e)
              | Inr test \<Rightarrow>
                  (case hmm_model' of
                     None \<Rightarrow> ((S', hmm_model', trained'), Inl AttributeError)
                   | Some m \<Rightarrow> ((S', hmm_model', trained'), hmm_score L m test))))"

text \<open>
  Lines 151 to 162, the loop over the folds: \<^verbatim>\<open>break\<close> when there are fewer than
  three sequences, otherwise the \<^verbatim>\<open>try\<close> and, when it raises, the handler, which
  trains once more and appends \<^verbatim>\<open>-Inf\<close>.
\<close>

fun cv_folds ::
  "('x, 'q, 'i, 'h) lib \<Rightarrow> int \<Rightarrow> ('i \<times> 'i) list \<Rightarrow> ('x, 'q) selector \<Rightarrow> pyfloat list
     \<Rightarrow> 'h gaussian_hmm option \<Rightarrow> int list
     \<Rightarrow> ('x, 'q) selector \<times> pyfloat list \<times> 'h gaussian_hmm option \<times> int list" where
  "cv_folds L n [] S scores hmm_model trained = (S, scores, hmm_model, trained)"
| "cv_folds L n (cv_idx # folds) S scores hmm_model trained =
     (if int (length (sequences S)) < 3 then (S, scores, hmm_model, trained)
      else case cv_try L S n cv_idx hmm_model trained of
             ((S', hmm_model', trained'), Inr logL) \<Rightarrow>
               cv_folds L n folds S' (scores @ [logL]) hmm_model' trained'
           | ((S', hmm_model', trained'), Inl e) \<Rightarrow>
               cv_folds L n folds S' (scores @ [NegInf]) (base_model L S' n) (trained' @ [n]))"

text \<open>
  Lines 148 to 166, the loop over the component counts inside the outer \<^verbatim>\<open>try\<close>.
  \<^verbatim>\<open>split_method.split\<close> raises before its first fold when there are too few
  sequences; that leaves the loop for the outer handler, which the last component of
  the result reports.
\<close>

fun cv_loop ::
  "('x, 'q, 'i, 'h) lib \<Rightarrow> int list \<Rightarrow> ('x, 'q) selector \<Rightarrow> pyfloat \<Rightarrow> 'h gaussian_hmm option
     \<Rightarrow> int list \<Rightarrow> ('x, 'q) selector \<times> 'h gaussian_hmm option \<times> int list \<times> bool" where
  "cv_loop L [] S best_score best_model trained = (S, best_model, trained, False)"
| "cv_loop L (n # ns) S best_score best_model trained =
     (case kfold_split L (sequences S) of
        Inl e \<Rightarrow> (S, best_model, trained, True)
      | Inr folds \<Rightarrow>
          (case cv_folds L n folds S [] None trained of
             (S', scores, hmm_model, trained') \<Rightarrow>
               (let logL = np_mean L scores
                in if fgt logL best_score
                   then cv_loop L ns S' logL hmm_model trained'
                   else cv_loop L ns S' best_score best_model trained')))"

text \<open>
  \<^verbatim>\<open>SelectorCV.select\<close>. The outer handler prints only when \<^verbatim>\<open>self.verbose\<close>
  is set, and its message names \<^verbatim>\<open>num_states\<close>, which \<^verbatim>\<open>select\<close> never binds: that
  is a NameError. After the handler comes the fallback to \<^verbatim>\<open>self.n_constant\<close>.
\<close>

definition select_cv ::
  "('x, 'q, 'i, 'h) lib \<Rightarrow> ('x, 'q) selector \<Rightarrow> int list \<times> (error + 'h gaussian_hmm option)" where
  "select_cv L S =
     (case cv_loop L (n_range S) S NegInf None [] of
        (S', best_model, trained, raised) \<Rightarrow>
          if raised \<and> verbose S' then (trained, Inl NameError)
          else (case best_model of
                  None \<Rightarrow> (trained @ [n_constant S'], Inr (base_model L S' (n_constant S')))
                | Some m \<Rightarrow> (trained, Inr (Some m))))"

text \<open>\<open>best_model\<close> as the loop of \<^verbatim>\<open>SelectorCV.select\<close> leaves it.\<close>

definition cv_best :: "('x, 'q, 'i, 'h) lib \<Rightarrow> ('x, 'q) selector \<Rightarrow> 'h gaussian_hmm option" where
  "cv_best L S = fst (snd (cv_loop L (n_range S) S NegInf None []))"

section \<open>The Isolation search engine\<close>

text \<open>
  The repository's \<^verbatim>\<open>isolation.py\<close> and \<^verbatim>\<open>game_agent.py\<close> are not among the sources;
  only \<^verbatim>\<open>agent_test.py\<close>, which calls them, is. The search engine below is therefore
  written from sections 4.2 and 4.3 of the specification.
\<close>

text \<open>
  Modelled from the spec: the scores of the missing \<^verbatim>\<open>game_agent.py\<close>. An evaluation
  is a real number, a utility is \<open>+\<infinity>\<close> or \<open>-\<infinity>\<close>, and alpha and beta start at
  \<open>-\<infinity>\<close> and \<open>+\<infinity>\<close>.
\<close>

datatype score = MinusInf | Val real | PlusInf

text \<open>
  Modelled from the spec: the order of these scores, \<open>-\<infinity>\<close> below and \<open>+\<infinity>\<close> above
  every real number.
\<close>

instantiation score :: linorder
begin

fun less_eq_score :: "score \<Rightarrow> score \<Rightarrow> bool" where
  "less_eq_score MinusInf _ = True"
| "less_eq_score _ PlusInf = True"
| "less_eq_score (Val a) (Val b) = (a \<le> b)"
| "less_eq_score _ _ = False"

definition less_score :: "score \<Rightarrow> score \<Rightarrow> bool" where
  "less_score a b \<longleftrightarrow> a \<le> b \<and> \<not> b \<le> a"

instance
proof
  fix x y z :: score
  show "(x < y) = (x \<le> y \<and> \<not> y \<le> x)" by (simp add: less_score_def)
  show "x \<le> x" by (cases x) simp_all
  show "x \<le> y \<Longrightarrow> y \<le> z \<Longrightarrow> x \<le> z"
    by (cases x; cases y; cases z) simp_all
  show "x \<le> y \<Longrightarrow> y \<le> x \<Longrightarrow> x = y"
    by (cases x; cases y) simp_all
  show "x \<le> y \<or> y \<le> x"
    by (cases x; cases y) auto
qed

end

text \<open>
  Modelled from the spec: what the search uses of the missing \<^verbatim>\<open>isolation.Board\<close> and
  of the evaluation function. \<open>legal_moves\<close> lists the legal moves of the active player
  in the fixed enumeration order, \<open>apply_move\<close> gives the successor board (the search
  applies it to legal moves only), \<open>evaluate\<close> scores a board for the role given.
  A board is terminal when the active player has no legal move.
\<close>

record ('b, 'm) game =
  legal_moves :: "'b \<Rightarrow> 'm list"
  apply_move :: "'b \<Rightarrow> 'm \<Rightarrow> 'b"
  evaluate :: "'b \<Rightarrow> bool \<Rightarrow> score"

text \<open>
  Modelled from the spec: the selection rule of the missing \<^verbatim>\<open>minimax\<close>, section
  4.2. The maximizing player takes the greatest score, the minimizing player the least;
  the comparison is strict, so the first move met keeps a tie.
\<close>

definition better :: "bool \<Rightarrow> score \<Rightarrow> score \<Rightarrow> bool" where
  "better maximizing s best = (if maximizing then best < s else s < best)"

text \<open>
  Modelled from the spec: the update of the best (score, move) pair in the loops of the
  missing \<^verbatim>\<open>minimax\<close> and \<^verbatim>\<open>alphabeta\<close>: the first child is taken, a later one
  only when its score is strictly better.
\<close>

definition pick :: "bool \<Rightarrow> (score \<times> 'm) option \<Rightarrow> score \<Rightarrow> 'm \<Rightarrow> (score \<times> 'm) option" where
  "pick maximizing best s m =
     (case best of
        None \<Rightarrow> Some (s, m)
      | Some (bs, bm) \<Rightarrow> if better maximizing s bs then Some (s, m) else best)"

text \<open>
  Modelled from the spec: the loop of the missing \<^verbatim>\<open>minimax\<close> over the legal moves,
  section 4.2. \<open>child\<close> is the recursive call on a successor board; it returns the
  score and the number of calls it made. \<open>expanded\<close> is the expansion counter.
\<close>

fun minimax_children ::
  "('b \<Rightarrow> score \<times> nat) \<Rightarrow> ('b, 'm) game \<Rightarrow> 'b \<Rightarrow> bool \<Rightarrow> 'm list \<Rightarrow> (score \<times> 'm) option \<Rightarrow> nat
     \<Rightarrow> (score \<times> 'm) option \<times> nat" where
  "minimax_children child G b maximizing [] best expanded = (best, expanded)"
| "minimax_children child G b maximizing (m # ms) best expanded =
     (case child (apply_move G b m) of
        (s, k) \<Rightarrow> minimax_children child G b maximizing ms (pick maximizing best s m) (expanded + k))"

text \<open>
  Modelled from the spec: the missing \<^verbatim>\<open>minimax(board, depth, maximizing_player)\<close>,
  section 4.2. It returns the pair (score, move) and the number of calls made, each
  call counted once, leaf calls included.
\<close>

primrec minimax ::
  "('b, 'm) game \<Rightarrow> nat \<Rightarrow> 'b \<Rightarrow> bool \<Rightarrow> (score \<times> 'm option) \<times> nat" where
  "minimax G 0 b maximizing = ((evaluate G b maximizing, None), 1)"
| "minimax G (Suc depth) b maximizing =
     (if legal_moves G b = [] then ((evaluate G b maximizing, None), 1)
      else case minimax_children
                  (\<lambda>b'. (fst (fst (minimax G depth b' (\<not> maximizing))),
                         snd (minimax G depth b' (\<not> maximizing))))
                  G b maximizing (legal_moves G b) None 1 of
             (Some (s, m), expanded) \<Rightarrow> ((s, Some m), expanded)
           | (None, expanded) \<Rightarrow> ((evaluate G b maximizing, None), expanded))"

text \<open>
  Modelled from the spec: the loop of the missing \<^verbatim>\<open>alphabeta\<close> over the legal
  moves, section 4.3. After each child a maximizing node raises alpha to the child's
  score, a minimizing node lowers beta to it, and the loop stops when alpha has
  reached beta: the remaining moves are not expanded.
\<close>

fun alphabeta_children ::
  "(score \<Rightarrow> score \<Rightarrow> 'b \<Rightarrow> score \<times> nat) \<Rightarrow> ('b, 'm) game \<Rightarrow> 'b \<Rightarrow> bool \<Rightarrow> 'm list
     \<Rightarrow> score \<Rightarrow> score \<Rightarrow> (score \<times> 'm) option \<Rightarrow> nat \<Rightarrow> (score \<times> 'm) option \<times> nat" where
  "alphabeta_children child G b maximizing [] alpha beta best expanded = (best, expanded)"
| "alphabeta_children child G b maximizing (m # ms) alpha beta best expanded =
     (case child alpha beta (apply_move G b m) of
        (s, k) \<Rightarrow>
          (let best' = pick maximizing best s m;
               alpha' = (if maximizing then max alpha s else alpha);
               beta' = (if maximizing then beta else min beta s)
           in if beta' \<le> alpha' then (best', expanded + k)
              else alphabeta_children child G b maximizing ms alpha' beta' best' (expanded + k)))"

text \<open>
  Modelled from the spec: the missing \<^verbatim>\<open>alphabeta\<close>, section 4.3, with the contract
  and the return shape of \<^verbatim>\<open>minimax\<close> and the two bounds.
\<close>

primrec alphabeta ::
  "('b, 'm) game \<Rightarrow> nat \<Rightarrow> 'b \<Rightarrow> bool \<Rightarrow> score \<Rightarrow> score \<Rightarrow> (score \<times> 'm option) \<times> nat" where
  "alphabeta G 0 b maximizing alpha beta = ((evaluate G b maximizing, None), 1)"
| "alphabeta G (Suc depth) b maximizing alpha beta =
     (if legal_moves G b = [] then ((evaluate G b maximizing, None), 1)
      else case alphabeta_children
                  (\<lambda>a c b'. (fst (fst (alphabeta G depth b' (\<not> maximizing) a c)),
                             snd (alphabeta G depth b' (\<not> maximizing) a c)))
                  G b maximizing (legal_moves G b) alpha beta None 1 of
             (Some (s, m), expanded) \<Rightarrow> ((s, Some m), expanded)
           | (None, expanded) \<Rightarrow> ((evaluate G b maximizing, None), expanded))"

text \<open>
  Modelled from the spec: the root call of the missing alpha-beta agent, section 4.3:
  alpha and beta start at \<open>-\<infinity>\<close> and \<open>+\<infinity>\<close>.
\<close>

definition alphabeta_root ::
  "('b, 'm) game \<Rightarrow> nat \<Rightarrow> 'b \<Rightarrow> bool \<Rightarrow> (score \<times> 'm option) \<times> nat" where
  "alphabeta_root G depth b maximizing = alphabeta G depth b maximizing MinusInf PlusInf"

section \<open>Properties of the recognizer\<close>

lemma recognize_loop_eq:
  "recognize_loop models words ps gs =
     (ps @ map (\<lambda>(w, x). fst (recognize_item models x)) words,
      gs @ map (\<lambda>(w, x). snd (recognize_item models x)) words)"
  by (induction words arbitrary: ps gs) (auto simp: split_def Let_def)

lemma recognize_eq:
  "recognize models words =
     (map (\<lambda>(w, x). fst (recognize_item models x)) words,
      map (\<lambda>(w, x). snd (recognize_item models x)) words)"
  by (simp add: recognize_def recognize_loop_eq)

lemma dom_score_models:
  "dom (fst (score_models models x p bs bg)) = dom p \<union> fst ` set models"
proof (induction models arbitrary: p bs bg)
  case Nil
  then show ?case by simp
next
  case (Cons wm models)
  obtain word model where wm: "wm = (word, model)" by (cases wm)
  show ?case
    unfolding wm by (auto simp add: Let_def Cons.IH)
qed

lemma dom_recognize_item: "dom (fst (recognize_item models x)) = fst ` set models"
  by (simp add: recognize_item_def dom_score_models)

lemma score_models_other:
  "w \<notin> fst ` set models \<Longrightarrow> fst (score_models models x p bs bg) w = p w"
proof (induction models arbitrary: p bs bg)
  case Nil
  then show ?case by simp
next
  case (Cons wm models)
  obtain word model where wm: "wm = (word, model)" by (cases wm)
  from Cons.prems have "w \<noteq> word" and "w \<notin> fst ` set models"
    by (auto simp: wm)
  then show ?case
    unfolding wm by (simp add: Let_def Cons.IH)
qed

lemma score_models_entry:
  "distinct (map fst models) \<Longrightarrow> (w, m) \<in> set models \<Longrightarrow>
     fst (score_models models x p bs bg) w = Some (case m x of Inr s \<Rightarrow> s | Inl e \<Rightarrow> NegInf)"
proof (induction models arbitrary: p bs bg)
  case Nil
  then show ?case by simp
next
  case (Cons wm models)
  obtain word model where wm: "wm = (word, model)" by (cases wm)
  from Cons.prems(1) have fresh: "word \<notin> fst ` set models" and d: "distinct (map fst models)"
    by (simp_all add: wm)
  show ?case
  proof (cases "(w, m) = (word, model)")
    case True
    then show ?thesis
      unfolding wm using fresh by (simp add: Let_def score_models_other)
  next
    case False
    with Cons.prems(2) have "(w, m) \<in> set models" by (auto simp: wm)
    then show ?thesis
      unfolding wm using d by (simp add: Let_def Cons.IH)
  qed
qed

lemma score_models_all_fail:
  "\<forall>(w, m) \<in> set models. \<exists>e. m x = Inl e \<Longrightarrow>
     snd (score_models models x p NegInf None) = None"
proof (induction models arbitrary: p)
  case Nil
  then show ?case by simp
next
  case (Cons wm models)
  obtain word model where wm: "wm = (word, model)" by (cases wm)
  from Cons.prems obtain e where "model x = Inl e" by (auto simp: wm)
  moreover from Cons.prems have "\<forall>(w, m) \<in> set models. \<exists>e. m x = Inl e" by simp
  ultimately show ?case
    unfolding wm by (simp add: Let_def Cons.IH)
qed

lemma score_models_fail_entry:
  "\<forall>(w, m) \<in> set models. \<exists>e. m x = Inl e \<Longrightarrow> w \<in> fst ` set models \<Longrightarrow>
     fst (score_models models x p bs bg) w = Some NegInf"
proof (induction models arbitrary: p bs bg)
  case Nil
  then show ?case by simp
next
  case (Cons wm models)
  obtain word model where wm: "wm = (word, model)" by (cases wm)
  from Cons.prems(1) obtain e where e: "model x = Inl e" by (auto simp: wm)
  from Cons.prems(1) have rest: "\<forall>(w, m) \<in> set models. \<exists>e. m x = Inl e" by simp
  show ?case
  proof (cases "w \<in> fst ` set models")
    case True
    then show ?thesis
      unfolding wm using rest by (simp add: Let_def Cons.IH)
  next
    case False
    with Cons.prems(2) have "w = word" by (auto simp: wm)
    with False e show ?thesis
      unfolding wm by (simp add: Let_def score_models_other)
  qed
qed

text \<open>
  Claim C8. \<^verbatim>\<open>recognize\<close> returns two lists with one entry per item of
  \<^verbatim>\<open>test_set.get_all_Xlengths()\<close>, in its iteration order: entry \<open>i\<close> of each list is
  what the loop body computes for item \<open>i\<close>, and the key set of every probability dict
  is the key set of \<^verbatim>\<open>models\<close>.
\<close>

theorem recognize_shape:
  "length (fst (recognize models words)) = length words \<and>
   length (snd (recognize models words)) = length words \<and>
   (\<forall>i < length words.
      fst (recognize models words) ! i = fst (recognize_item models (snd (words ! i))) \<and>
      snd (recognize models words) ! i = snd (recognize_item models (snd (words ! i))) \<and>
      dom (fst (recognize models words) ! i) = fst ` set models)"
  by (simp add: recognize_eq dom_recognize_item split_def)

text \<open>
  Claim C9. For a test item on which every model's \<^verbatim>\<open>score\<close> raises (in particular
  when \<^verbatim>\<open>models\<close> is empty) the guess appended is \<^verbatim>\<open>None\<close> and every word of the
  item's probability dict is mapped to \<^verbatim>\<open>-Inf\<close>; a word whose model scores is mapped to
  the score returned. Keys of a dict are distinct.
\<close>

theorem recognize_failed_item:
  assumes "i < length words"
  shows "((\<forall>(w, m) \<in> set models. \<exists>e. m (snd (words ! i)) = Inl e) \<longrightarrow>
            snd (recognize models words) ! i = None \<and>
            (\<forall>w \<in> fst ` set models. (fst (recognize models words) ! i) w = Some NegInf)) \<and>
         (distinct (map fst models) \<longrightarrow>
            (\<forall>(w, m) \<in> set models. \<forall>s. m (snd (words ! i)) = Inr s \<longrightarrow>
               (fst (recognize models words) ! i) w = Some s))"
proof -
  let ?x = "snd (words ! i)"
  have p: "fst (recognize models words) ! i = fst (recognize_item models ?x)"
    and g: "snd (recognize models words) ! i = snd (recognize_item models ?x)"
    using assms by (simp_all add: recognize_eq split_def)
  have a: "snd (recognize_item models ?x) = None"
    if "\<forall>(w, m) \<in> set models. \<exists>e. m ?x = Inl e"
    using that by (simp add: recognize_item_def score_models_all_fail)
  have b: "fst (recognize_item models ?x) w = Some NegInf"
    if "\<forall>(w, m) \<in> set models. \<exists>e. m ?x = Inl e" and "w \<in> fst ` set models" for w
    using that by (simp add: recognize_item_def score_models_fail_entry)
  have c: "fst (recognize_item models ?x) w = Some s"
    if "distinct (map fst models)" and "(w, m) \<in> set models" and "m ?x = Inr s" for w m s
    using score_models_entry [OF that(1,2), of ?x Map.empty NegInf None] that(3)
    by (simp add: recognize_item_def)
  show ?thesis
    unfolding p g using a b c by (intro conjI impI ballI) auto
qed



theorem recognize_shape_witness:
  "length (fst (recognize [(''A'', \<lambda>x. Inr (Fin x)), (''B'', \<lambda>x. Inl ValueError)] [(0::nat, 1), (1, 2)])) = 2 \<and>
   length (snd (recognize [(''A'', \<lambda>x. Inr (Fin x)), (''B'', \<lambda>x. Inl ValueError)] [(0::nat, 1), (1, 2)])) = 2 \<and>
   dom (fst (recognize [(''A'', \<lambda>x. Inr (Fin x)), (''B'', \<lambda>x. Inl ValueError)] [(0::nat, 1), (1, 2)]) ! 1)
     = {''A'', ''B''}"
proof -
  let ?M = "[(''A'', \<lambda>x. Inr (Fin x)), (''B'', \<lambda>x. Inl ValueError)] :: (string \<times> real hmm) list"
  let ?W = "[(0::nat, 1::real), (1, 2)]"
  note t = recognize_shape [of ?M ?W]
  have i: "(1::nat) < length ?W" by simp
  from t have "length (fst (recognize ?M ?W)) = length ?W" by (rule conjunct1)
  moreover from t have "length (snd (recognize ?M ?W)) = length ?W"
    by (rule conjunct1 [OF conjunct2])
  moreover from t i have "dom (fst (recognize ?M ?W) ! 1) = fst ` set ?M"
    by blast
  ultimately show ?thesis by simp
qed

theorem recognize_failed_item_witness:
  "snd (recognize [(''A'', \<lambda>x. Inl ValueError), (''B'', \<lambda>x. Inl AttributeError)] [(0::nat, 1::real)]) ! 0 = None \<and>
   (fst (recognize [(''A'', \<lambda>x. Inl ValueError), (''B'', \<lambda>x. Inl AttributeError)] [(0::nat, 1::real)]) ! 0) ''B''
      = Some NegInf \<and>
   snd (recognize ([] :: (string \<times> real hmm) list) [(0::nat, 1::real)]) ! 0 = None \<and>
   (fst (recognize [(''A'', \<lambda>x. Inr (Fin x)), (''B'', \<lambda>x. Inl ValueError)] [(0::nat, 1::real)]) ! 0) ''A''
      = Some (Fin 1)"
proof -
  let ?W = "[(0::nat, 1::real)]"
  let ?F = "[(''A'', \<lambda>x. Inl ValueError), (''B'', \<lambda>x. Inl AttributeError)] :: (string \<times> real hmm) list"
  let ?E = "[] :: (string \<times> real hmm) list"
  let ?M = "[(''A'', \<lambda>x. Inr (Fin x)), (''B'', \<lambda>x. Inl ValueError)] :: (string \<times> real hmm) list"
  have i: "(0::nat) < length ?W" by simp
  have failF: "\<forall>(w, m) \<in> set ?F. \<exists>e. m (snd (?W ! 0)) = Inl e" by simp
  have failE: "\<forall>(w, m) \<in> set ?E. \<exists>e. m (snd (?W ! 0)) = Inl e" by simp
  have dM: "distinct (map fst ?M)" by simp
  have inF: "''B'' \<in> fst ` set ?F" by simp
  have inM: "(''A'', \<lambda>x. Inr (Fin x)) \<in> set ?M" by simp
  from recognize_failed_item [OF i, of ?F] failF
  have F: "snd (recognize ?F ?W) ! 0 = None \<and>
           (\<forall>w \<in> fst ` set ?F. (fst (recognize ?F ?W) ! 0) w = Some NegInf)"
    by (rule mp [OF conjunct1])
  from recognize_failed_item [OF i, of ?E] failE
  have E: "snd (recognize ?E ?W) ! 0 = None \<and>
           (\<forall>w \<in> fst ` set ?E. (fst (recognize ?E ?W) ! 0) w = Some NegInf)"
    by (rule mp [OF conjunct1])
  from recognize_failed_item [OF i, of ?M] dM
  have M: "\<forall>(w, m) \<in> set ?M. \<forall>s. m (snd (?W ! 0)) = Inr s \<longrightarrow>
             (fst (recognize ?M ?W) ! 0) w = Some s"
    by (rule mp [OF conjunct2])
  from bspec [OF M inM] have A: "(fst (recognize ?M ?W) ! 0) ''A'' = Some (Fin 1)" by simp
  from F inF have B: "(fst (recognize ?F ?W) ! 0) ''B'' = Some NegInf" by blast
  from F E A B show ?thesis by blast
qed

section \<open>Properties of the model selectors\<close>

lemma base_model_components: "base_model L S n = Some m \<Longrightarrow> n_components m = n"
  by (auto simp: base_model_def split: sum.splits)

lemma set_n_range: "n \<in> set (n_range S) \<longleftrightarrow> min_n_components S \<le> n \<and> n < max_n_components S"
  by (auto simp: n_range_def)

lemma dic_loop_trained: "fst (dic_loop L S ns bs bm tr) = tr @ ns"
  by (induction ns arbitrary: bs bm tr) (simp_all add: Let_def)

lemma dic_loop_model:
  "snd (dic_loop L S ns bs bm tr) = Some m \<Longrightarrow> bm = Some m \<or> n_components m \<in> set ns"
proof (induction ns arbitrary: bs bm tr)
  case Nil
  then show ?case by simp
next
  case (Cons n ns)
  let ?h = "base_model L S n"
  let ?s = "case dic_score L S ?h of Inr s \<Rightarrow> s | Inl e \<Rightarrow> NegInf"
  show ?case
  proof (cases "fgt ?s bs")
    case True
    with Cons.prems have "snd (dic_loop L S ns ?s ?h (tr @ [n])) = Some m"
      by (simp add: Let_def)
    from Cons.IH [OF this] show ?thesis
      by (auto dest: base_model_components)
  next
    case False
    with Cons.prems have "snd (dic_loop L S ns bs bm (tr @ [n])) = Some m"
      by (simp add: Let_def)
    from Cons.IH [OF this] show ?thesis by auto
  qed
qed

lemma bic_loop_trained: "fst (bic_loop L S ns bs bm tr) = tr @ ns"
  by (induction ns arbitrary: bs bm tr) (simp_all add: Let_def)

lemma bic_loop_model:
  "snd (bic_loop L S ns bs bm tr) = Some m \<Longrightarrow> bm = Some m \<or> n_components m \<in> set ns"
proof (induction ns arbitrary: bs bm tr)
  case Nil
  then show ?case by simp
next
  case (Cons n ns)
  let ?h = "base_model L S n"
  let ?s = "case bic_score L S ?h of Inr s \<Rightarrow> s | Inl e \<Rightarrow> PosInf"
  show ?case
  proof (cases "flt ?s bs")
    case True
    with Cons.prems have "snd (bic_loop L S ns ?s ?h (tr @ [n])) = Some m"
      by (simp add: Let_def)
    from Cons.IH [OF this] show ?thesis
      by (auto dest: base_model_components)
  next
    case False
    with Cons.prems have "snd (bic_loop L S ns bs bm (tr @ [n])) = Some m"
      by (simp add: Let_def)
    from Cons.IH [OF this] show ?thesis by auto
  qed
qed


lemma cv_try_inv:
  assumes "cv_try L S n f h tr = ((S', h', tr'), r)"
  shows "S' = S\<lparr>X := X S'\<rparr>" and "set tr' \<subseteq> set tr \<union> {n}"
    and "h' = Some m \<Longrightarrow> h = Some m \<or> n_components m = n"
  using assms
  by (auto simp: cv_try_def Let_def split: sum.splits option.splits
      dest: base_model_components)

lemma X_update_compose:
  assumes "S1 = S\<lparr>X := X S1\<rparr>" and "S' = S1\<lparr>X := X S'\<rparr>"
  shows "S' = S\<lparr>X := X S'\<rparr>"
proof -
  have "S1\<lparr>X := X S'\<rparr> = S\<lparr>X := X S'\<rparr>"
    using arg_cong [OF assms(1), of "\<lambda>s. s\<lparr>X := X S'\<rparr>"] by simp
  with assms(2) show ?thesis by simp
qed

lemma cv_folds_inv:
  assumes "cv_folds L n fs S sc h tr = (S', sc', h', tr')"
  shows "S' = S\<lparr>X := X S'\<rparr> \<and> set tr' \<subseteq> set tr \<union> {n} \<and>
         (\<forall>m. h' = Some m \<longrightarrow> h = Some m \<or> n_components m = n)"
  using assms
proof (induction fs arbitrary: S sc h tr)
  case Nil
  then show ?case by auto
next
  case (Cons f fs)
  show ?case
  proof (cases "int (length (sequences S)) < 3")
    case True
    with Cons.prems show ?thesis by auto
  next
    case False
    obtain S1 h1 tr1 r where t: "cv_try L S n f h tr = ((S1, h1, tr1), r)"
      by (metis prod_cases3 surj_pair)
    note i1 = cv_try_inv [OF t]
    show ?thesis
    proof (cases r)
      case (Inr logL)
      with Cons.prems False t
      have "cv_folds L n fs S1 (sc @ [logL]) h1 tr1 = (S', sc', h', tr')" by simp
      from Cons.IH [OF this]
      have a: "S' = S1\<lparr>X := X S'\<rparr>" and b: "set tr' \<subseteq> set tr1 \<union> {n}"
        and c: "\<forall>m. h' = Some m \<longrightarrow> h1 = Some m \<or> n_components m = n"
        by blast+
      have "S' = S\<lparr>X := X S'\<rparr>" by (rule X_update_compose [OF i1(1) a])
      moreover from b i1(2) have "set tr' \<subseteq> set tr \<union> {n}" by blast
      moreover from c i1(3) have "\<forall>m. h' = Some m \<longrightarrow> h = Some m \<or> n_components m = n"
        by blast
      ultimately show ?thesis by blast
    next
      case (Inl e)
      with Cons.prems False t
      have "cv_folds L n fs S1 (sc @ [NegInf]) (base_model L S1 n) (tr1 @ [n]) = (S', sc', h', tr')"
        by simp
      from Cons.IH [OF this]
      have a: "S' = S1\<lparr>X := X S'\<rparr>" and b: "set tr' \<subseteq> set (tr1 @ [n]) \<union> {n}"
        and c: "\<forall>m. h' = Some m \<longrightarrow> base_model L S1 n = Some m \<or> n_components m = n"
        by blast+
      have "S' = S\<lparr>X := X S'\<rparr>" by (rule X_update_compose [OF i1(1) a])
      moreover from b i1(2) have "set tr' \<subseteq> set tr \<union> {n}" by auto
      moreover from c have "\<forall>m. h' = Some m \<longrightarrow> h = Some m \<or> n_components m = n"
        by (blast dest: base_model_components)
      ultimately show ?thesis by blast
    qed
  qed
qed

lemma cv_loop_inv:
  assumes "cv_loop L ns S bs bm tr = (S', bm', tr', raised)"
  shows "S' = S\<lparr>X := X S'\<rparr> \<and> set tr' \<subseteq> set tr \<union> set ns \<and>
         (\<forall>m. bm' = Some m \<longrightarrow> bm = Some m \<or> n_components m \<in> set ns)"
  using assms
proof (induction ns arbitrary: S bs bm tr)
  case Nil
  then show ?case by auto
next
  case (Cons n ns)
  show ?case
  proof (cases "kfold_split L (sequences S)")
    case (Inl e)
    with Cons.prems show ?thesis by auto
  next
    case (Inr folds)
    obtain S1 scores h1 tr1 where f: "cv_folds L n folds S [] None tr = (S1, scores, h1, tr1)"
      by (metis prod_cases4)
    from cv_folds_inv [OF f]
    have i1: "S1 = S\<lparr>X := X S1\<rparr>" and i2: "set tr1 \<subseteq> set tr \<union> {n}"
      and i3: "\<forall>m. h1 = Some m \<longrightarrow> n_components m = n"
      by blast+
    let ?logL = "np_mean L scores"
    show ?thesis
    proof (cases "fgt ?logL bs")
      case True
      with Cons.prems Inr f have "cv_loop L ns S1 ?logL h1 tr1 = (S', bm', tr', raised)"
        by (simp add: Let_def)
      from Cons.IH [OF this]
      have a: "S' = S1\<lparr>X := X S'\<rparr>" and b: "set tr' \<subseteq> set tr1 \<union> set ns"
        and c: "\<forall>m. bm' = Some m \<longrightarrow> h1 = Some m \<or> n_components m \<in> set ns"
        by blast+
      have "S' = S\<lparr>X := X S'\<rparr>" by (rule X_update_compose [OF i1 a])
      moreover from b i2 have "set tr' \<subseteq> set tr \<union> set (n # ns)" by auto
      moreover from c i3 have "\<forall>m. bm' = Some m \<longrightarrow> bm = Some m \<or> n_components m \<in> set (n # ns)"
        by auto
      ultimately show ?thesis by blast
    next
      case False
      with Cons.prems Inr f have "cv_loop L ns S1 bs bm tr1 = (S', bm', tr', raised)"
        by (simp add: Let_def)
      from Cons.IH [OF this]
      have a: "S' = S1\<lparr>X := X S'\<rparr>" and b: "set tr' \<subseteq> set tr1 \<union> set ns"
        and c: "\<forall>m. bm' = Some m \<longrightarrow> bm = Some m \<or> n_components m \<in> set ns"
        by blast+
      have "S' = S\<lparr>X := X S'\<rparr>" by (rule X_update_compose [OF i1 a])
      moreover from b i2 have "set tr' \<subseteq> set tr \<union> set (n # ns)" by auto
      moreover from c have "\<forall>m. bm' = Some m \<longrightarrow> bm = Some m \<or> n_components m \<in> set (n # ns)"
        by auto
      ultimately show ?thesis by blast
    qed
  qed
qed

text \<open>
  Claim C10. \<^verbatim>\<open>SelectorDIC.select\<close>, \<^verbatim>\<open>SelectorBIC.select\<close> and
  \<^verbatim>\<open>SelectorCV.select\<close> train only with component counts \<open>n\<close> such that
  \<open>min_n_components \<le> n < max_n_components\<close>, and a model they return has such a
  count; so a model with \<open>max_n_components\<close> states is never a candidate. The one
  exception is the fallback of \<^verbatim>\<open>SelectorCV.select\<close>, which trains with
  \<open>n_constant\<close> when its loop leaves \<open>best_model\<close> at \<^verbatim>\<open>None\<close>.
\<close>

theorem selectors_components_in_range:
  "(\<forall>n \<in> set (fst (select_dic L S)). min_n_components S \<le> n \<and> n < max_n_components S) \<and>
   (\<forall>m. snd (select_dic L S) = Some m \<longrightarrow>
      min_n_components S \<le> n_components m \<and> n_components m < max_n_components S) \<and>
   (\<forall>n \<in> set (fst (select_bic L S)). min_n_components S \<le> n \<and> n < max_n_components S) \<and>
   (\<forall>m. snd (select_bic L S) = Some m \<longrightarrow>
      min_n_components S \<le> n_components m \<and> n_components m < max_n_components S) \<and>
   (\<forall>n \<in> set (fst (select_cv L S)).
      (min_n_components S \<le> n \<and> n < max_n_components S) \<or>
      (cv_best L S = None \<and> n = n_constant S)) \<and>
   (\<forall>m. snd (select_cv L S) = Inr (Some m) \<longrightarrow>
      (min_n_components S \<le> n_components m \<and> n_components m < max_n_components S) \<or>
      (cv_best L S = None \<and> n_components m = n_constant S))"
proof -
  have dic_t: "\<forall>n \<in> set (fst (select_dic L S)). min_n_components S \<le> n \<and> n < max_n_components S"
    by (simp add: select_dic_def dic_loop_trained set_n_range)
  have dic_m: "min_n_components S \<le> n_components m \<and> n_components m < max_n_components S"
    if "snd (select_dic L S) = Some m" for m
    using dic_loop_model [of L S "n_range S" NegInf None "[]" m] that
    by (simp add: select_dic_def set_n_range)
  have bic_t: "\<forall>n \<in> set (fst (select_bic L S)). min_n_components S \<le> n \<and> n < max_n_components S"
    by (simp add: select_bic_def bic_loop_trained set_n_range)
  have bic_m: "min_n_components S \<le> n_components m \<and> n_components m < max_n_components S"
    if "snd (select_bic L S) = Some m" for m
    using bic_loop_model [of L S "n_range S" PosInf None "[]" m] that
    by (simp add: select_bic_def set_n_range)
  obtain S' bm tr raised where l: "cv_loop L (n_range S) S NegInf None [] = (S', bm, tr, raised)"
    by (metis prod_cases4)
  from cv_loop_inv [OF l]
  have sx: "S' = S\<lparr>X := X S'\<rparr>" and st: "set tr \<subseteq> set (n_range S)"
    and sm: "\<forall>m. bm = Some m \<longrightarrow> n_components m \<in> set (n_range S)"
    by auto
  have nc: "n_constant S' = n_constant S"
    using arg_cong [OF sx, of n_constant] by simp
  have best: "cv_best L S = bm" by (simp add: cv_best_def l)
  have cv_t: "(min_n_components S \<le> n \<and> n < max_n_components S) \<or>
      (cv_best L S = None \<and> n = n_constant S)" if "n \<in> set (fst (select_cv L S))" for n
    using that st unfolding best
    by (auto simp: select_cv_def l nc set_n_range split: if_splits option.splits)
  have cv_m: "(min_n_components S \<le> n_components m \<and> n_components m < max_n_components S) \<or>
      (cv_best L S = None \<and> n_components m = n_constant S)"
    if "snd (select_cv L S) = Inr (Some m)" for m
    using that sm unfolding best
    by (auto simp: select_cv_def l nc set_n_range split: if_splits option.splits
        dest: base_model_components)
  from dic_t dic_m bic_t bic_m cv_t cv_m show ?thesis by blast
qed

theorem selectors_components_in_range_witness:
  "(let L = \<lparr>hmm_fit = (\<lambda>n x. if n = 3 then Inl ValueError else Inr ()),
             hmm_score = (\<lambda>m x. Inr (Fin (of_int (n_components m)))),
             free_params = (\<lambda>m. Inr 1), math_log = (\<lambda>k. Inr (Fin 0)),
             f_add = (\<lambda>a b. a), f_sub = (\<lambda>a b. a), f_mul = (\<lambda>a b. b),
             f_div = (\<lambda>a b. Inr (Fin 0)),
             np_mean = (\<lambda>xs. case xs of [] \<Rightarrow> NaN | x # _ \<Rightarrow> x),
             kfold_split = (\<lambda>q. if length q < 3 then Inl ValueError
                                else Inr [(0::nat, 1::nat), (1, 2), (2, 0)]),
             combine_sequences = (\<lambda>i q. Inr i)\<rparr>;
        S = \<lparr>hwords = [(''A'', 0::nat)], sequences = [0::nat, 1, 2], X = 0, n_constant = 3,
             min_n_components = 2, max_n_components = 5, verbose = False\<rparr>;
        T = S\<lparr>sequences := [0], n_constant := 7\<rparr>
    in select_dic L S = ([2, 3, 4], Some (GaussianHMM 4 ())) \<and>
       select_bic L S = ([2, 3, 4], Some (GaussianHMM 2 ())) \<and>
       select_cv L S = ([2, 2, 2, 3, 3, 3, 3, 3, 3, 4, 4, 4], Inr (Some (GaussianHMM 4 ()))) \<and>
       select_cv L T = ([7], Inr (Some (GaussianHMM 7 ()))) \<and>
       (\<forall>n \<in> set (fst (select_dic L S)). 2 \<le> n \<and> n < 5) \<and>
       (\<forall>n \<in> set (fst (select_cv L S)). 2 \<le> n \<and> n < 5) \<and>
       cv_best L T = None)"
proof -
  let ?L = "\<lparr>hmm_fit = (\<lambda>n x. if n = 3 then Inl ValueError else Inr ()),
             hmm_score = (\<lambda>m x. Inr (Fin (of_int (n_components m)))),
             free_params = (\<lambda>m. Inr 1), math_log = (\<lambda>k. Inr (Fin 0)),
             f_add = (\<lambda>a b. a), f_sub = (\<lambda>a b. a), f_mul = (\<lambda>a b. b),
             f_div = (\<lambda>a b. Inr (Fin 0)),
             np_mean = (\<lambda>xs. case xs of [] \<Rightarrow> NaN | x # _ \<Rightarrow> x),
             kfold_split = (\<lambda>q. if length q < 3 then Inl ValueError
                                else Inr [(0::nat, 1::nat), (1, 2), (2, 0)]),
             combine_sequences = (\<lambda>i q. Inr i)\<rparr> :: (nat, nat, nat, unit) lib"
  let ?S = "\<lparr>hwords = [(''A'', 0::nat)], sequences = [0::nat, 1, 2], X = 0, n_constant = 3,
             min_n_components = 2, max_n_components = 5, verbose = False\<rparr>"
  let ?T = "?S\<lparr>sequences := [0], n_constant := 7\<rparr>"
  have dic: "select_dic ?L ?S = ([2, 3, 4], Some (GaussianHMM 4 ()))"
    by (simp add: select_dic_def n_range_def dic_score_def base_model_def Let_def)
  have bic: "select_bic ?L ?S = ([2, 3, 4], Some (GaussianHMM 2 ()))"
    by (simp add: select_bic_def n_range_def bic_score_def base_model_def Let_def flt_def)
  have cv: "select_cv ?L ?S = ([2, 2, 2, 3, 3, 3, 3, 3, 3, 4, 4, 4], Inr (Some (GaussianHMM 4 ())))"
    by (simp add: select_cv_def n_range_def base_model_def cv_try_def Let_def)
  have cvT: "select_cv ?L ?T = ([7], Inr (Some (GaussianHMM 7 ())))"
    by (simp add: select_cv_def n_range_def base_model_def Let_def)
  note r = selectors_components_in_range [of ?L ?S]
  note rT = selectors_components_in_range [of ?L ?T]
  from r have "\<forall>n \<in> set (fst (select_dic ?L ?S)).
      min_n_components ?S \<le> n \<and> n < max_n_components ?S"
    by (rule conjunct1)
  then have d: "\<forall>n \<in> set (fst (select_dic ?L ?S)). 2 \<le> n \<and> n < 5" by simp
  from rT have "\<forall>m. snd (select_cv ?L ?T) = Inr (Some m) \<longrightarrow>
      (min_n_components ?T \<le> n_components m \<and> n_components m < max_n_components ?T) \<or>
      (cv_best ?L ?T = None \<and> n_components m = n_constant ?T)"
    by (rule conjunct2 [OF conjunct2 [OF conjunct2 [OF conjunct2 [OF conjunct2]]]])
  then have "(min_n_components ?T \<le> n_components (GaussianHMM 7 ()) \<and>
        n_components (GaussianHMM 7 ()) < max_n_components ?T) \<or>
      (cv_best ?L ?T = None \<and> n_components (GaussianHMM 7 ()) = n_constant ?T)"
    using arg_cong [OF cvT, of snd] by (elim allE [of _ "GaussianHMM 7 ()"]) simp
  then have b: "cv_best ?L ?T = None" by simp
  have nb: "cv_best ?L ?S = Some (GaussianHMM 4 ())"
    by (simp add: cv_best_def n_range_def base_model_def cv_try_def Let_def)
  from r have c0: "\<forall>n \<in> set (fst (select_cv ?L ?S)).
      (min_n_components ?S \<le> n \<and> n < max_n_components ?S) \<or>
      (cv_best ?L ?S = None \<and> n = n_constant ?S)"
    by (rule conjunct1 [OF conjunct2 [OF conjunct2 [OF conjunct2 [OF conjunct2]]]])
  have c: "\<forall>n \<in> set (fst (select_cv ?L ?S)). 2 \<le> n \<and> n < 5"
  proof
    fix n assume "n \<in> set (fst (select_cv ?L ?S))"
    with c0 have "(min_n_components ?S \<le> n \<and> n < max_n_components ?S) \<or>
      (cv_best ?L ?S = None \<and> n = n_constant ?S)" by (rule bspec)
    then have "min_n_components ?S \<le> n \<and> n < max_n_components ?S"
      unfolding nb by simp
    then show "2 \<le> n \<and> n < 5" by simp
  qed
  from dic bic cv cvT d c b show ?thesis
    unfolding Let_def by (intro conjI)
qed
section \<open>Properties of the search engine\<close>

lemma MinusInf_least [simp]: "MinusInf \<le> (x :: score)"
  by simp

lemma PlusInf_greatest [simp]: "(x :: score) \<le> PlusInf"
  by (cases x) simp_all

lemma le_MinusInf_iff [simp]: "(x :: score) \<le> MinusInf \<longleftrightarrow> x = MinusInf"
  by (cases x) simp_all

lemma PlusInf_le_iff [simp]: "PlusInf \<le> (x :: score) \<longleftrightarrow> x = PlusInf"
  by (cases x) simp_all

lemma MinusInf_less_PlusInf [simp]: "MinusInf < PlusInf"
  by (simp add: less_score_def)

lemma pick_None [simp]: "pick mx None s m = Some (s, m)"
  by (simp add: pick_def)

lemma pick_max [simp]:
  "pick True (Some (v, m0)) s m = (if v < s then Some (s, m) else Some (v, m0))"
  by (simp add: pick_def better_def)

lemma pick_min [simp]:
  "pick False (Some (v, m0)) s m = (if s < v then Some (s, m) else Some (v, m0))"
  by (simp add: pick_def better_def)

text \<open>The minimax loop never lowers its counter and never drops a move it holds.\<close>

lemma minimax_children_count:
  "expanded \<le> snd (minimax_children child G b mx ms best expanded)"
proof (induction ms arbitrary: best expanded)
  case Nil
  then show ?case by simp
next
  case (Cons m ms)
  obtain s k where c: "child (apply_move G b m) = (s, k)" by (cases "child (apply_move G b m)")
  have "expanded + k \<le> snd (minimax_children child G b mx ms (pick mx best s m) (expanded + k))"
    by (rule Cons.IH)
  then show ?case by (simp add: c)
qed

lemma minimax_children_max_keeps:
  "\<exists>v' m'. fst (minimax_children child G b True ms (Some (v, m0)) expanded) = Some (v', m')
     \<and> v \<le> v' \<and> (v' = v \<longrightarrow> m' = m0)"
proof (induction ms arbitrary: v m0 expanded)
  case Nil
  then show ?case by simp
next
  case (Cons m ms)
  obtain s k where c: "child (apply_move G b m) = (s, k)" by (cases "child (apply_move G b m)")
  show ?case
  proof (cases "v < s")
    case True
    from Cons.IH [of s m "expanded + k"] obtain v' m'
      where "fst (minimax_children child G b True ms (Some (s, m)) (expanded + k)) = Some (v', m')"
        and "s \<le> v'" by blast
    with True show ?thesis by (auto simp: c)
  next
    case False
    from Cons.IH [of v m0 "expanded + k"] False show ?thesis by (simp add: c)
  qed
qed

lemma minimax_children_min_keeps:
  "\<exists>v' m'. fst (minimax_children child G b False ms (Some (v, m0)) expanded) = Some (v', m')
     \<and> v' \<le> v \<and> (v' = v \<longrightarrow> m' = m0)"
proof (induction ms arbitrary: v m0 expanded)
  case Nil
  then show ?case by simp
next
  case (Cons m ms)
  obtain s k where c: "child (apply_move G b m) = (s, k)" by (cases "child (apply_move G b m)")
  show ?case
  proof (cases "s < v")
    case True
    from Cons.IH [of s m "expanded + k"] obtain v' m'
      where "fst (minimax_children child G b False ms (Some (s, m)) (expanded + k)) = Some (v', m')"
        and "v' \<le> s" by blast
    with True show ?thesis by (auto simp: c)
  next
    case False
    from Cons.IH [of v m0 "expanded + k"] False show ?thesis by (simp add: c)
  qed
qed

text \<open>
  The loop of a maximizing node. \<open>cab\<close> and \<open>cmm\<close> are the recursive calls of
  alpha-beta and of minimax on a child; the first assumption is what the induction on
  the depth provides for them. \<open>alpha0\<close> is the bound the node was entered with.
\<close>

lemma alphabeta_children_max:
  fixes cab :: "score \<Rightarrow> score \<Rightarrow> 'b \<Rightarrow> score \<times> nat" and cmm :: "'b \<Rightarrow> score \<times> nat"
  assumes child: "\<And>a c b'. a < c \<Longrightarrow>
      snd (cab a c b') \<le> snd (cmm b') \<and>
      (fst (cab a c b') \<le> a \<longrightarrow> fst (cmm b') \<le> fst (cab a c b')) \<and>
      (c \<le> fst (cab a c b') \<longrightarrow> fst (cab a c b') \<le> fst (cmm b')) \<and>
      (a < fst (cab a c b') \<and> fst (cab a c b') < c \<longrightarrow> fst (cab a c b') = fst (cmm b'))"
    and win: "alpha < beta"
    and cnt: "n \<le> n'"
    and inv: "(bab = None \<and> bmm = None \<and> alpha = alpha0) \<or>
      (\<exists>r m v m'. bab = Some (r, m) \<and> bmm = Some (v, m') \<and> alpha = max alpha0 r \<and> v \<le> r \<and>
         (alpha0 < r \<longrightarrow> v = r \<and> m' = m) \<and> (alpha0 = MinusInf \<longrightarrow> m' = m))"
  shows "snd (alphabeta_children cab G b True ms alpha beta bab n)
           \<le> snd (minimax_children cmm G b True ms bmm n') \<and>
         ((fst (alphabeta_children cab G b True ms alpha beta bab n) = None \<and>
           fst (minimax_children cmm G b True ms bmm n') = None \<and> ms = [] \<and> bab = None) \<or>
          (\<exists>r m v m'. fst (alphabeta_children cab G b True ms alpha beta bab n) = Some (r, m) \<and>
             fst (minimax_children cmm G b True ms bmm n') = Some (v, m') \<and>
             (r \<le> alpha0 \<longrightarrow> v \<le> r) \<and> (beta \<le> r \<longrightarrow> r \<le> v) \<and>
             (alpha0 < r \<and> r < beta \<longrightarrow> r = v \<and> m' = m) \<and>
             (alpha0 = MinusInf \<and> beta = PlusInf \<longrightarrow> m' = m)))"
  using win cnt inv
proof (induction ms arbitrary: alpha bab bmm n n')
  case Nil
  from Nil.prems(3) show ?case
  proof
    assume "bab = None \<and> bmm = None \<and> alpha = alpha0"
    with Nil.prems(2) show ?thesis by simp
  next
    assume "\<exists>r m v m'. bab = Some (r, m) \<and> bmm = Some (v, m') \<and> alpha = max alpha0 r \<and> v \<le> r \<and>
         (alpha0 < r \<longrightarrow> v = r \<and> m' = m) \<and> (alpha0 = MinusInf \<longrightarrow> m' = m)"
    then obtain r m v m' where h: "bab = Some (r, m)" "bmm = Some (v, m')" "alpha = max alpha0 r"
      "v \<le> r" "alpha0 < r \<longrightarrow> v = r \<and> m' = m" "alpha0 = MinusInf \<longrightarrow> m' = m" by blast
    from h(3) Nil.prems(1) have "r < beta" by simp
    with h Nil.prems(2) show ?thesis by auto
  qed
next
  case (Cons m1 ms)
  let ?b1 = "apply_move G b m1"
  obtain s k where ca: "cab alpha beta ?b1 = (s, k)" by (cases "cab alpha beta ?b1")
  obtain t k' where cm: "cmm ?b1 = (t, k')" by (cases "cmm ?b1")
  from child [OF Cons.prems(1), of ?b1] ca cm
  have kk: "k \<le> k'" and lo: "s \<le> alpha \<Longrightarrow> t \<le> s" and hi: "beta \<le> s \<Longrightarrow> s \<le> t"
    and mid: "alpha < s \<Longrightarrow> s < beta \<Longrightarrow> s = t"
    by simp_all
  from Cons.prems(2) kk have cnt': "n + k \<le> n' + k'" by simp
  have a0: "alpha0 \<le> alpha" using Cons.prems(3) by auto
  have prev: "\<exists>r m v m'. pick True bab s m1 = Some (r, m) \<and> pick True bmm t m1 = Some (v, m') \<and>
      max alpha s = max alpha0 r \<and>
      (s < beta \<longrightarrow> v \<le> r \<and> (alpha0 < r \<longrightarrow> v = r \<and> m' = m) \<and> (alpha0 = MinusInf \<longrightarrow> m' = m)) \<and>
      (beta \<le> s \<longrightarrow> r = s \<and> m = m1 \<and> v = t \<and> m' = m1)"
    using Cons.prems(3)
  proof
    assume "bab = None \<and> bmm = None \<and> alpha = alpha0"
    then show ?thesis using lo mid by (cases "s \<le> alpha") auto
  next
    assume "\<exists>r m v m'. bab = Some (r, m) \<and> bmm = Some (v, m') \<and> alpha = max alpha0 r \<and> v \<le> r \<and>
         (alpha0 < r \<longrightarrow> v = r \<and> m' = m) \<and> (alpha0 = MinusInf \<longrightarrow> m' = m)"
    then obtain r m v m' where h: "bab = Some (r, m)" "bmm = Some (v, m')" "alpha = max alpha0 r"
      "v \<le> r" "alpha0 < r \<longrightarrow> v = r \<and> m' = m" "alpha0 = MinusInf \<longrightarrow> m' = m" by blast
    from h(3) Cons.prems(1) have rb: "r < beta" by simp
    show ?thesis
    proof (cases "beta \<le> s")
      case True
      with hi rb h(4) have "r < s" "v < t" by auto
      with True h show ?thesis by (auto simp: max_def)
    next
      case False
      show ?thesis
      proof (cases "s \<le> alpha")
        case True
        with lo have "t \<le> s" by simp
        with True False h show ?thesis
          by (auto simp: max_def)
      next
        case F2: False
        with False mid have "s = t" by simp
        with F2 False h show ?thesis
          by (auto simp: max_def)
      qed
    qed
  qed
  then obtain r m v m' where p: "pick True bab s m1 = Some (r, m)" "pick True bmm t m1 = Some (v, m')"
      "max alpha s = max alpha0 r"
      "s < beta \<Longrightarrow> v \<le> r \<and> (alpha0 < r \<longrightarrow> v = r \<and> m' = m) \<and> (alpha0 = MinusInf \<longrightarrow> m' = m)"
      "beta \<le> s \<Longrightarrow> r = s \<and> m = m1 \<and> v = t \<and> m' = m1"
    by blast
  show ?case
  proof (cases "beta \<le> max alpha s")
    case True
    with Cons.prems(1) have bs: "beta \<le> s" by (simp add: max_def split: if_splits)
    from p(5) [OF bs] have e: "r = s" "m = m1" "v = t" "m' = m1" by simp_all
    from minimax_children_max_keeps [of cmm G b ms t m1 "n' + k'"] obtain v' m''
      where f: "fst (minimax_children cmm G b True ms (Some (t, m1)) (n' + k')) = Some (v', m'')"
        and g: "t \<le> v'" "v' = t \<longrightarrow> m'' = m1" by blast
    have c1: "n + k \<le> snd (minimax_children cmm G b True ms (Some (t, m1)) (n' + k'))"
      using cnt' minimax_children_count [of "n' + k'" cmm G b True ms "Some (t, m1)"] by simp
    have sa: "alpha0 < s" using a0 Cons.prems(1) bs by auto
    have "beta = PlusInf \<longrightarrow> m'' = m1"
    proof
      assume "beta = PlusInf"
      with bs have "s = PlusInf" by simp
      with hi [OF bs] have "t = PlusInf" by simp
      with g have "v' = t" by simp
      with g show "m'' = m1" by simp
    qed
    then have mv: "alpha0 = MinusInf \<and> beta = PlusInf \<longrightarrow> m'' = m1" by simp
    have abv: "alphabeta_children cab G b True (m1 # ms) alpha beta bab n = (Some (s, m1), n + k)"
      using True p(1) e by (simp add: ca Let_def)
    have mmv: "minimax_children cmm G b True (m1 # ms) bmm n' =
        minimax_children cmm G b True ms (Some (t, m1)) (n' + k')"
      using p(2) e by (simp add: cm)
    have vs: "s \<le> v'" using g(1) hi [OF bs] by simp
    have nb: "\<not> s < beta" using bs by simp
    have na: "\<not> s \<le> alpha0" using sa by simp
    show ?thesis
      unfolding abv mmv using f c1 vs nb na mv by simp
  next
    case False
    then have sb: "s < beta" by (simp add: max_def split: if_splits)
    have w: "max alpha s < beta" using False by (simp add: not_le)
    have i: "(pick True bab s m1 = None \<and> pick True bmm t m1 = None \<and> max alpha s = alpha0) \<or>
      (\<exists>r m v m'. pick True bab s m1 = Some (r, m) \<and> pick True bmm t m1 = Some (v, m') \<and>
         max alpha s = max alpha0 r \<and> v \<le> r \<and>
         (alpha0 < r \<longrightarrow> v = r \<and> m' = m) \<and> (alpha0 = MinusInf \<longrightarrow> m' = m))"
      using p(1,2,3) p(4) [OF sb] by blast
    from Cons.IH [OF w cnt' i] p(1) False show ?thesis
      by (simp add: ca cm Let_def)
  qed
qed

text \<open>The loop of a minimizing node, the mirror image: \<open>beta0\<close> is the bound on entry.\<close>

lemma alphabeta_children_min:
  fixes cab :: "score \<Rightarrow> score \<Rightarrow> 'b \<Rightarrow> score \<times> nat" and cmm :: "'b \<Rightarrow> score \<times> nat"
  assumes child: "\<And>a c b'. a < c \<Longrightarrow>
      snd (cab a c b') \<le> snd (cmm b') \<and>
      (fst (cab a c b') \<le> a \<longrightarrow> fst (cmm b') \<le> fst (cab a c b')) \<and>
      (c \<le> fst (cab a c b') \<longrightarrow> fst (cab a c b') \<le> fst (cmm b')) \<and>
      (a < fst (cab a c b') \<and> fst (cab a c b') < c \<longrightarrow> fst (cab a c b') = fst (cmm b'))"
    and win: "alpha < beta"
    and cnt: "n \<le> n'"
    and inv: "(bab = None \<and> bmm = None \<and> beta = beta0) \<or>
      (\<exists>r m v m'. bab = Some (r, m) \<and> bmm = Some (v, m') \<and> beta = min beta0 r \<and> r \<le> v \<and>
         (r < beta0 \<longrightarrow> v = r \<and> m' = m) \<and> (beta0 = PlusInf \<longrightarrow> m' = m))"
  shows "snd (alphabeta_children cab G b False ms alpha beta bab n)
           \<le> snd (minimax_children cmm G b False ms bmm n') \<and>
         ((fst (alphabeta_children cab G b False ms alpha beta bab n) = None \<and>
           fst (minimax_children cmm G b False ms bmm n') = None \<and> ms = [] \<and> bab = None) \<or>
          (\<exists>r m v m'. fst (alphabeta_children cab G b False ms alpha beta bab n) = Some (r, m) \<and>
             fst (minimax_children cmm G b False ms bmm n') = Some (v, m') \<and>
             (r \<le> alpha \<longrightarrow> v \<le> r) \<and> (beta0 \<le> r \<longrightarrow> r \<le> v) \<and>
             (alpha < r \<and> r < beta0 \<longrightarrow> r = v \<and> m' = m) \<and>
             (alpha = MinusInf \<and> beta0 = PlusInf \<longrightarrow> m' = m)))"
  using win cnt inv
proof (induction ms arbitrary: beta bab bmm n n')
  case Nil
  from Nil.prems(3) show ?case
  proof
    assume "bab = None \<and> bmm = None \<and> beta = beta0"
    with Nil.prems(2) show ?thesis by simp
  next
    assume "\<exists>r m v m'. bab = Some (r, m) \<and> bmm = Some (v, m') \<and> beta = min beta0 r \<and> r \<le> v \<and>
         (r < beta0 \<longrightarrow> v = r \<and> m' = m) \<and> (beta0 = PlusInf \<longrightarrow> m' = m)"
    then obtain r m v m' where h: "bab = Some (r, m)" "bmm = Some (v, m')" "beta = min beta0 r"
      "r \<le> v" "r < beta0 \<longrightarrow> v = r \<and> m' = m" "beta0 = PlusInf \<longrightarrow> m' = m" by blast
    from h(3) Nil.prems(1) have "alpha < r" by simp
    with h Nil.prems(2) show ?thesis by auto
  qed
next
  case (Cons m1 ms)
  let ?b1 = "apply_move G b m1"
  obtain s k where ca: "cab alpha beta ?b1 = (s, k)" by (cases "cab alpha beta ?b1")
  obtain t k' where cm: "cmm ?b1 = (t, k')" by (cases "cmm ?b1")
  from child [OF Cons.prems(1), of ?b1] ca cm
  have kk: "k \<le> k'" and lo: "s \<le> alpha \<Longrightarrow> t \<le> s" and hi: "beta \<le> s \<Longrightarrow> s \<le> t"
    and mid: "alpha < s \<Longrightarrow> s < beta \<Longrightarrow> s = t"
    by simp_all
  from Cons.prems(2) kk have cnt': "n + k \<le> n' + k'" by simp
  have b0: "beta \<le> beta0" using Cons.prems(3) by auto
  have prev: "\<exists>r m v m'. pick False bab s m1 = Some (r, m) \<and> pick False bmm t m1 = Some (v, m') \<and>
      min beta s = min beta0 r \<and>
      (alpha < s \<longrightarrow> r \<le> v \<and> (r < beta0 \<longrightarrow> v = r \<and> m' = m) \<and> (beta0 = PlusInf \<longrightarrow> m' = m)) \<and>
      (s \<le> alpha \<longrightarrow> r = s \<and> m = m1 \<and> v = t \<and> m' = m1)"
    using Cons.prems(3)
  proof
    assume "bab = None \<and> bmm = None \<and> beta = beta0"
    then show ?thesis using hi mid by (cases "beta \<le> s") auto
  next
    assume "\<exists>r m v m'. bab = Some (r, m) \<and> bmm = Some (v, m') \<and> beta = min beta0 r \<and> r \<le> v \<and>
         (r < beta0 \<longrightarrow> v = r \<and> m' = m) \<and> (beta0 = PlusInf \<longrightarrow> m' = m)"
    then obtain r m v m' where h: "bab = Some (r, m)" "bmm = Some (v, m')" "beta = min beta0 r"
      "r \<le> v" "r < beta0 \<longrightarrow> v = r \<and> m' = m" "beta0 = PlusInf \<longrightarrow> m' = m" by blast
    from h(3) Cons.prems(1) have ra: "alpha < r" by simp
    show ?thesis
    proof (cases "s \<le> alpha")
      case True
      with lo ra h(4) have "s < r" "t < v" by auto
      with True h show ?thesis by (auto simp: min_def)
    next
      case False
      show ?thesis
      proof (cases "beta \<le> s")
        case True
        with hi have "s \<le> t" by simp
        with True False h show ?thesis
          by (auto simp: min_def)
      next
        case F2: False
        with False mid have "s = t" by simp
        with F2 False h show ?thesis
          by (auto simp: min_def)
      qed
    qed
  qed
  then obtain r m v m' where p: "pick False bab s m1 = Some (r, m)" "pick False bmm t m1 = Some (v, m')"
      "min beta s = min beta0 r"
      "alpha < s \<Longrightarrow> r \<le> v \<and> (r < beta0 \<longrightarrow> v = r \<and> m' = m) \<and> (beta0 = PlusInf \<longrightarrow> m' = m)"
      "s \<le> alpha \<Longrightarrow> r = s \<and> m = m1 \<and> v = t \<and> m' = m1"
    by blast
  show ?case
  proof (cases "min beta s \<le> alpha")
    case True
    with Cons.prems(1) have sa: "s \<le> alpha" by (simp add: min_def split: if_splits)
    from p(5) [OF sa] have e: "r = s" "m = m1" "v = t" "m' = m1" by simp_all
    from minimax_children_min_keeps [of cmm G b ms t m1 "n' + k'"] obtain v' m''
      where f: "fst (minimax_children cmm G b False ms (Some (t, m1)) (n' + k')) = Some (v', m'')"
        and g: "v' \<le> t" "v' = t \<longrightarrow> m'' = m1" by blast
    have c1: "n + k \<le> snd (minimax_children cmm G b False ms (Some (t, m1)) (n' + k'))"
      using cnt' minimax_children_count [of "n' + k'" cmm G b False ms "Some (t, m1)"] by simp
    have sb: "s < beta0" using b0 Cons.prems(1) sa by auto
    have "alpha = MinusInf \<longrightarrow> m'' = m1"
    proof
      assume "alpha = MinusInf"
      with sa have "s = MinusInf" by simp
      with lo [OF sa] have "t = MinusInf" by simp
      with g have "v' = t" by simp
      with g show "m'' = m1" by simp
    qed
    then have mv: "alpha = MinusInf \<and> beta0 = PlusInf \<longrightarrow> m'' = m1" by simp
    have abv: "alphabeta_children cab G b False (m1 # ms) alpha beta bab n = (Some (s, m1), n + k)"
      using True p(1) e by (simp add: ca Let_def)
    have mmv: "minimax_children cmm G b False (m1 # ms) bmm n' =
        minimax_children cmm G b False ms (Some (t, m1)) (n' + k')"
      using p(2) e by (simp add: cm)
    have vs: "v' \<le> s" using g(1) lo [OF sa] by simp
    have nb: "\<not> beta0 \<le> s" using sb by simp
    have na: "\<not> alpha < s" using sa by simp
    show ?thesis
      unfolding abv mmv using f c1 vs nb na mv by simp
  next
    case False
    then have sa: "alpha < s" by (simp add: min_def split: if_splits)
    have w: "alpha < min beta s" using False by (simp add: not_le)
    have i: "(pick False bab s m1 = None \<and> pick False bmm t m1 = None \<and> min beta s = beta0) \<or>
      (\<exists>r m v m'. pick False bab s m1 = Some (r, m) \<and> pick False bmm t m1 = Some (v, m') \<and>
         min beta s = min beta0 r \<and> r \<le> v \<and>
         (r < beta0 \<longrightarrow> v = r \<and> m' = m) \<and> (beta0 = PlusInf \<longrightarrow> m' = m))"
      using p(1,2,3) p(4) [OF sa] by blast
    from Cons.IH [OF w cnt' i] p(1) False show ?thesis
      by (simp add: ca cm Let_def)
  qed
qed

text \<open>
  Alpha-beta against minimax at one node, for any bounds \<open>alpha < beta\<close>: it never
  expands more, a score at or below \<open>alpha\<close> is an upper bound of the minimax score, a
  score at or above \<open>beta\<close> a lower bound, a score strictly between is the minimax
  score; and with the bounds of the root the move is the minimax move.
\<close>

lemma alphabeta_fail_soft:
  "alpha < beta \<Longrightarrow>
     snd (alphabeta G d b mx alpha beta) \<le> snd (minimax G d b mx) \<and>
     (fst (fst (alphabeta G d b mx alpha beta)) \<le> alpha \<longrightarrow>
        fst (fst (minimax G d b mx)) \<le> fst (fst (alphabeta G d b mx alpha beta))) \<and>
     (beta \<le> fst (fst (alphabeta G d b mx alpha beta)) \<longrightarrow>
        fst (fst (alphabeta G d b mx alpha beta)) \<le> fst (fst (minimax G d b mx))) \<and>
     (alpha < fst (fst (alphabeta G d b mx alpha beta)) \<and>
      fst (fst (alphabeta G d b mx alpha beta)) < beta \<longrightarrow>
        fst (fst (alphabeta G d b mx alpha beta)) = fst (fst (minimax G d b mx))) \<and>
     (alpha = MinusInf \<and> beta = PlusInf \<longrightarrow>
        snd (fst (alphabeta G d b mx alpha beta)) = snd (fst (minimax G d b mx)))"
proof (induction d arbitrary: b mx alpha beta)
  case 0
  then show ?case by simp
next
  case (Suc d)
  show ?case
  proof (cases "legal_moves G b = []")
    case True
    then show ?thesis by simp
  next
    case False
    let ?cab = "\<lambda>a c b'. (fst (fst (alphabeta G d b' (\<not> mx) a c)), snd (alphabeta G d b' (\<not> mx) a c))"
    let ?cmm = "\<lambda>b'. (fst (fst (minimax G d b' (\<not> mx))), snd (minimax G d b' (\<not> mx)))"
    have child: "snd (?cab a c b') \<le> snd (?cmm b') \<and>
      (fst (?cab a c b') \<le> a \<longrightarrow> fst (?cmm b') \<le> fst (?cab a c b')) \<and>
      (c \<le> fst (?cab a c b') \<longrightarrow> fst (?cab a c b') \<le> fst (?cmm b')) \<and>
      (a < fst (?cab a c b') \<and> fst (?cab a c b') < c \<longrightarrow> fst (?cab a c b') = fst (?cmm b'))"
      if "a < c" for a c b'
      using Suc.IH [OF that, of b' "\<not> mx"] by simp
    let ?ab = "alphabeta_children ?cab G b mx (legal_moves G b) alpha beta None 1"
    let ?mm = "minimax_children ?cmm G b mx (legal_moves G b) None 1"
    have ev: "alphabeta G (Suc d) b mx alpha beta =
        (case ?ab of (Some (s, m), e) \<Rightarrow> ((s, Some m), e)
                   | (None, e) \<Rightarrow> ((evaluate G b mx, None), e))"
      and em: "minimax G (Suc d) b mx =
        (case ?mm of (Some (s, m), e) \<Rightarrow> ((s, Some m), e)
                   | (None, e) \<Rightarrow> ((evaluate G b mx, None), e))"
      using False by simp_all
    have "\<exists>r m v m'. fst ?ab = Some (r, m) \<and> fst ?mm = Some (v, m') \<and> snd ?ab \<le> snd ?mm \<and>
        (r \<le> alpha \<longrightarrow> v \<le> r) \<and> (beta \<le> r \<longrightarrow> r \<le> v) \<and>
        (alpha < r \<and> r < beta \<longrightarrow> r = v \<and> m' = m) \<and>
        (alpha = MinusInf \<and> beta = PlusInf \<longrightarrow> m' = m)"
    proof (cases mx)
      case True
      then have mxT: "mx = True" by simp
      have n1: "(1::nat) \<le> 1" by simp
      have i0: "(None = None \<and> None = None \<and> alpha = alpha) \<or>
        (\<exists>r m v m'. None = Some (r, m) \<and> None = Some (v, m') \<and> alpha = max alpha r \<and> v \<le> r \<and>
           (alpha < r \<longrightarrow> v = r \<and> m' = m) \<and> (alpha = MinusInf \<longrightarrow> m' = m))"
        by simp
      from alphabeta_children_max [where cab = ?cab and cmm = ?cmm and ms = "legal_moves G b"
          and G = G and b = b, OF child Suc.prems n1 i0] False
      show ?thesis unfolding mxT by blast
    next
      case F: False
      then have mxF: "mx = False" by simp
      have n1: "(1::nat) \<le> 1" by simp
      have i0: "(None = None \<and> None = None \<and> beta = beta) \<or>
        (\<exists>r m v m'. None = Some (r, m) \<and> None = Some (v, m') \<and> beta = min beta r \<and> r \<le> v \<and>
           (r < beta \<longrightarrow> v = r \<and> m' = m) \<and> (beta = PlusInf \<longrightarrow> m' = m))"
        by simp
      from alphabeta_children_min [where cab = ?cab and cmm = ?cmm and ms = "legal_moves G b"
          and G = G and b = b, OF child Suc.prems n1 i0] False
      show ?thesis unfolding mxF by blast
    qed
    then obtain r m v m' where h: "fst ?ab = Some (r, m)" "fst ?mm = Some (v, m')"
      "snd ?ab \<le> snd ?mm" "r \<le> alpha \<longrightarrow> v \<le> r" "beta \<le> r \<longrightarrow> r \<le> v"
      "alpha < r \<and> r < beta \<longrightarrow> r = v \<and> m' = m" "alpha = MinusInf \<and> beta = PlusInf \<longrightarrow> m' = m"
      by blast
    have va: "alphabeta G (Suc d) b mx alpha beta = ((r, Some m), snd ?ab)"
      unfolding ev using h(1) by (cases ?ab) simp
    have vm: "minimax G (Suc d) b mx = ((v, Some m'), snd ?mm)"
      unfolding em using h(2) by (cases ?mm) simp
    show ?thesis
      unfolding va vm using h(3-7) by simp
  qed
qed

text \<open>With the bounds of the root the whole result is the minimax result.\<close>

lemma alphabeta_root_minimax:
  "fst (alphabeta_root G d b mx) = fst (minimax G d b mx) \<and>
   snd (alphabeta_root G d b mx) \<le> snd (minimax G d b mx)"
proof -
  let ?r = "fst (fst (alphabeta G d b mx MinusInf PlusInf))"
  let ?v = "fst (fst (minimax G d b mx))"
  note fs = alphabeta_fail_soft [OF MinusInf_less_PlusInf, of G d b mx]
  have "?r = ?v"
  proof (cases "?r = MinusInf")
    case True
    with fs have "?v \<le> MinusInf" by simp
    with True show ?thesis by simp
  next
    case False
    show ?thesis
    proof (cases "?r = PlusInf")
      case True
      with fs have "PlusInf \<le> ?v" by simp
      with True show ?thesis by simp
    next
      case F: False
      have "MinusInf < ?r" using False by (cases ?r) (simp_all add: less_score_def)
      moreover have "?r < PlusInf" using F by (cases ?r) (simp_all add: less_score_def)
      ultimately show ?thesis using fs by blast
    qed
  qed
  moreover from fs have "snd (fst (alphabeta G d b mx MinusInf PlusInf)) = snd (fst (minimax G d b mx))"
    by blast
  moreover from fs have "snd (alphabeta G d b mx MinusInf PlusInf) \<le> snd (minimax G d b mx)"
    by blast
  ultimately show ?thesis
    by (simp add: alphabeta_root_def prod_eq_iff)
qed

text \<open>The minimax loop, one more move at the end of the list.\<close>

lemma minimax_children_snoc:
  "minimax_children child G b mx (ms @ [m]) best n =
     (pick mx (fst (minimax_children child G b mx ms best n)) (fst (child (apply_move G b m))) m,
      snd (minimax_children child G b mx ms best n) + snd (child (apply_move G b m)))"
proof (induction ms arbitrary: best n)
  case Nil
  then show ?case by (cases "child (apply_move G b m)") simp
next
  case (Cons m1 ms)
  then show ?case by (cases "child (apply_move G b m1)") simp
qed

text \<open>
  The loop returns the first move, in the order of the list, whose child has the best
  score: no child is better than it, and no earlier child has the same score.
\<close>

lemma minimax_children_first_best:
  "ms \<noteq> [] \<Longrightarrow>
     \<exists>i < length ms.
       fst (minimax_children child G b mx ms None n)
         = Some (fst (child (apply_move G b (ms ! i))), ms ! i) \<and>
       (\<forall>j < length ms. \<not> better mx (fst (child (apply_move G b (ms ! j))))
                                   (fst (child (apply_move G b (ms ! i))))) \<and>
       (\<forall>j < i. fst (child (apply_move G b (ms ! j))) \<noteq> fst (child (apply_move G b (ms ! i))))"
proof (induction ms rule: rev_induct)
  case Nil
  then show ?case by simp
next
  case (snoc m ms)
  let ?val = "\<lambda>x. fst (child (apply_move G b x))"
  show ?case
  proof (cases "ms = []")
    case True
    have "fst (minimax_children child G b mx [m] None n) = Some (?val m, m)"
      by (cases "child (apply_move G b m)") simp
    then show ?thesis
      unfolding True by (simp add: better_def)
  next
    case False
    from snoc.IH [OF False] obtain i where i: "i < length ms"
      and r: "fst (minimax_children child G b mx ms None n) = Some (?val (ms ! i), ms ! i)"
      and best: "\<forall>j < length ms. \<not> better mx (?val (ms ! j)) (?val (ms ! i))"
      and first: "\<forall>j < i. ?val (ms ! j) \<noteq> ?val (ms ! i)"
      by blast
    have res: "fst (minimax_children child G b mx (ms @ [m]) None n)
        = (if better mx (?val m) (?val (ms ! i)) then Some (?val m, m)
           else Some (?val (ms ! i), ms ! i))"
      by (simp add: minimax_children_snoc r pick_def)
    show ?thesis
    proof (cases "better mx (?val m) (?val (ms ! i))")
      case True
      have lt: "\<not> better mx (?val (ms ! j)) (?val m) \<and> ?val (ms ! j) \<noteq> ?val m"
        if "j < length ms" for j
        using best that True by (auto simp: better_def split: if_splits)
      have a: "fst (minimax_children child G b mx (ms @ [m]) None n)
          = Some (?val ((ms @ [m]) ! length ms), (ms @ [m]) ! length ms)"
        using res True by simp
      have b: "\<forall>j < length (ms @ [m]). \<not> better mx (?val ((ms @ [m]) ! j))
          (?val ((ms @ [m]) ! length ms))"
        using lt by (auto simp: nth_append better_def)
      have c: "\<forall>j < length ms. ?val ((ms @ [m]) ! j) \<noteq> ?val ((ms @ [m]) ! length ms)"
        using lt by (simp add: nth_append)
      have "length ms < length (ms @ [m])" by simp
      with a b c show ?thesis by blast
    next
      case F: False
      have a: "fst (minimax_children child G b mx (ms @ [m]) None n)
          = Some (?val ((ms @ [m]) ! i), (ms @ [m]) ! i)"
        using res F i by (simp add: nth_append)
      have b: "\<forall>j < length (ms @ [m]). \<not> better mx (?val ((ms @ [m]) ! j)) (?val ((ms @ [m]) ! i))"
        using best F i by (auto simp: nth_append less_Suc_eq)
      have c: "\<forall>j < i. ?val ((ms @ [m]) ! j) \<noteq> ?val ((ms @ [m]) ! i)"
        using first i by (simp add: nth_append)
      have "i < length (ms @ [m])" using i by simp
      with a b c show ?thesis by blast
    qed
  qed
qed

text \<open>The same at a node of minimax that has legal moves and depth left.\<close>

lemma minimax_first_best:
  assumes "legal_moves G b \<noteq> []"
  shows "\<exists>i < length (legal_moves G b).
       fst (minimax G (Suc d) b mx)
         = (fst (fst (minimax G d (apply_move G b (legal_moves G b ! i)) (\<not> mx))),
            Some (legal_moves G b ! i)) \<and>
       (\<forall>j < length (legal_moves G b).
          \<not> better mx (fst (fst (minimax G d (apply_move G b (legal_moves G b ! j)) (\<not> mx))))
                      (fst (fst (minimax G d (apply_move G b (legal_moves G b ! i)) (\<not> mx))))) \<and>
       (\<forall>j < i. fst (fst (minimax G d (apply_move G b (legal_moves G b ! j)) (\<not> mx)))
               \<noteq> fst (fst (minimax G d (apply_move G b (legal_moves G b ! i)) (\<not> mx))))"
proof -
  let ?c = "\<lambda>b'. (fst (fst (minimax G d b' (\<not> mx))), snd (minimax G d b' (\<not> mx)))"
  let ?mm = "minimax_children ?c G b mx (legal_moves G b) None 1"
  from minimax_children_first_best [OF assms, of ?c G b mx 1] obtain i
    where i: "i < length (legal_moves G b)"
      and r: "fst ?mm = Some (fst (?c (apply_move G b (legal_moves G b ! i))), legal_moves G b ! i)"
      and best: "\<forall>j < length (legal_moves G b).
          \<not> better mx (fst (?c (apply_move G b (legal_moves G b ! j))))
                      (fst (?c (apply_move G b (legal_moves G b ! i))))"
      and first: "\<forall>j < i. fst (?c (apply_move G b (legal_moves G b ! j)))
          \<noteq> fst (?c (apply_move G b (legal_moves G b ! i)))"
    by blast
  have "fst (minimax G (Suc d) b mx)
      = (fst (fst (minimax G d (apply_move G b (legal_moves G b ! i)) (\<not> mx))),
         Some (legal_moves G b ! i))"
    using assms r by (cases ?mm) simp
  with i best first show ?thesis by auto
qed

text \<open>
  Claim C2. For every board, every depth and any enumeration order of the legal moves,
  alpha-beta started with the bounds \<open>-\<infinity>\<close> and \<open>+\<infinity>\<close> returns the pair (score, move)
  that minimax returns at that depth, and expands no more nodes than minimax does.
\<close>

theorem alphabeta_equals_minimax:
  "fst (alphabeta_root G depth b maximizing) = fst (minimax G depth b maximizing) \<and>
   snd (alphabeta_root G depth b maximizing) \<le> snd (minimax G depth b maximizing)"
  by (rule alphabeta_root_minimax)

theorem alphabeta_equals_minimax_witness:
  "(let G = \<lparr>legal_moves = (\<lambda>b. if length b < 2 then [0::nat, 1, 2] else []),
             apply_move = (\<lambda>b m. b @ [m]),
             evaluate = (\<lambda>b mx. case b of [0, j] \<Rightarrow> Val (1 + real j)
                                         | [i, j] \<Rightarrow> Val (3 + real j) | _ \<Rightarrow> Val 0)\<rparr>
    in minimax G (Suc (Suc 0)) [] True = ((Val 3, Some 1), 13) \<and>
       alphabeta_root G (Suc (Suc 0)) [] True = ((Val 3, Some 1), 11) \<and>
       fst (alphabeta_root G (Suc (Suc 0)) [] True) = fst (minimax G (Suc (Suc 0)) [] True) \<and>
       snd (alphabeta_root G (Suc (Suc 0)) [] True) \<le> snd (minimax G (Suc (Suc 0)) [] True))"
proof -
  let ?G = "\<lparr>legal_moves = (\<lambda>b. if length b < 2 then [0::nat, 1, 2] else []),
             apply_move = (\<lambda>b m. b @ [m]),
             evaluate = (\<lambda>b mx. case b of [0, j] \<Rightarrow> Val (1 + real j)
                                         | [i, j] \<Rightarrow> Val (3 + real j) | _ \<Rightarrow> Val 0)\<rparr>"
  have mm: "minimax ?G (Suc (Suc 0)) [] True = ((Val 3, Some 1), 13)"
    by (simp add: less_score_def)
  have ab: "alphabeta_root ?G (Suc (Suc 0)) [] True = ((Val 3, Some 1), 11)"
    by (simp add: alphabeta_root_def less_score_def max_def min_def Let_def)
  note eq = alphabeta_equals_minimax [of ?G "Suc (Suc 0)" "[]" True]
  from eq have e1: "fst (alphabeta_root ?G (Suc (Suc 0)) [] True) = fst (minimax ?G (Suc (Suc 0)) [] True)"
    by (rule conjunct1)
  from eq have e2: "snd (alphabeta_root ?G (Suc (Suc 0)) [] True) \<le> snd (minimax ?G (Suc (Suc 0)) [] True)"
    by (rule conjunct2)
  from mm ab e1 e2 show ?thesis
    unfolding Let_def by (intro conjI)
qed

text \<open>
  Claim C7. At a node with legal moves and depth left, minimax, and alpha-beta started
  with the bounds of the root, select the same move, and it is the first move in
  enumeration order whose child has the best score: the greatest for the maximizing
  player, the least for the minimizing player. The score of a child is its minimax
  score at the remaining depth.
\<close>

theorem first_move_wins_ties:
  assumes "legal_moves G b \<noteq> []"
  shows "\<exists>i < length (legal_moves G b).
     fst (minimax G (Suc d) b mx)
       = (fst (fst (minimax G d (apply_move G b (legal_moves G b ! i)) (\<not> mx))),
          Some (legal_moves G b ! i)) \<and>
     fst (alphabeta_root G (Suc d) b mx)
       = (fst (fst (minimax G d (apply_move G b (legal_moves G b ! i)) (\<not> mx))),
          Some (legal_moves G b ! i)) \<and>
     (\<forall>j < length (legal_moves G b).
        if mx
        then fst (fst (minimax G d (apply_move G b (legal_moves G b ! j)) (\<not> mx)))
               \<le> fst (fst (minimax G d (apply_move G b (legal_moves G b ! i)) (\<not> mx)))
        else fst (fst (minimax G d (apply_move G b (legal_moves G b ! i)) (\<not> mx)))
               \<le> fst (fst (minimax G d (apply_move G b (legal_moves G b ! j)) (\<not> mx)))) \<and>
     (\<forall>j < i. fst (fst (minimax G d (apply_move G b (legal_moves G b ! j)) (\<not> mx)))
             \<noteq> fst (fst (minimax G d (apply_move G b (legal_moves G b ! i)) (\<not> mx))))"
proof -
  let ?cv = "\<lambda>j. fst (fst (minimax G d (apply_move G b (legal_moves G b ! j)) (\<not> mx)))"
  from minimax_first_best [OF assms, of d mx] obtain i
    where i: "i < length (legal_moves G b)"
      and r: "fst (minimax G (Suc d) b mx) = (?cv i, Some (legal_moves G b ! i))"
      and best: "\<forall>j < length (legal_moves G b). \<not> better mx (?cv j) (?cv i)"
      and first: "\<forall>j < i. ?cv j \<noteq> ?cv i"
    by blast
  have ab: "fst (alphabeta_root G (Suc d) b mx) = (?cv i, Some (legal_moves G b ! i))"
    using alphabeta_root_minimax [of G "Suc d" b mx] r by simp
  have ord: "\<forall>j < length (legal_moves G b). if mx then ?cv j \<le> ?cv i else ?cv i \<le> ?cv j"
  proof (cases mx)
    case True
    with best show ?thesis by (simp add: better_def not_less)
  next
    case False
    with best show ?thesis by (simp add: better_def not_less)
  qed
  from i r ab ord first show ?thesis by blast
qed

theorem first_move_wins_ties_witness:
  "(let G = \<lparr>legal_moves = (\<lambda>b. if length b < 2 then [0::nat, 1, 2] else []),
             apply_move = (\<lambda>b m. b @ [m]),
             evaluate = (\<lambda>b mx. case b of [0, j] \<Rightarrow> Val (1 + real j)
                                         | [i, j] \<Rightarrow> Val (3 + real j) | _ \<Rightarrow> Val 0)\<rparr>
    in legal_moves G [] \<noteq> [] \<and>
       fst (fst (minimax G (Suc 0) (apply_move G [] 1) False)) = Val 3 \<and>
       fst (fst (minimax G (Suc 0) (apply_move G [] 2) False)) = Val 3 \<and>
       fst (minimax G (Suc (Suc 0)) [] True) = (Val 3, Some 1) \<and>
       (\<exists>i < length (legal_moves G []).
          snd (fst (minimax G (Suc (Suc 0)) [] True)) = Some (legal_moves G [] ! i) \<and>
          snd (fst (alphabeta_root G (Suc (Suc 0)) [] True)) = Some (legal_moves G [] ! i)))"
proof -
  let ?G = "\<lparr>legal_moves = (\<lambda>b. if length b < 2 then [0::nat, 1, 2] else []),
             apply_move = (\<lambda>b m. b @ [m]),
             evaluate = (\<lambda>b mx. case b of [0, j] \<Rightarrow> Val (1 + real j)
                                         | [i, j] \<Rightarrow> Val (3 + real j) | _ \<Rightarrow> Val 0)\<rparr>"
  have h: "legal_moves ?G [] \<noteq> []" by simp
  have c1: "fst (fst (minimax ?G (Suc 0) (apply_move ?G [] 1) False)) = Val 3"
    by (simp add: less_score_def)
  have c2: "fst (fst (minimax ?G (Suc 0) (apply_move ?G [] 2) False)) = Val 3"
    by (simp add: less_score_def)
  have mm: "fst (minimax ?G (Suc (Suc 0)) [] True) = (Val 3, Some 1)"
    by (simp add: less_score_def)
  from first_move_wins_ties [OF h, of "Suc 0" True] obtain i
    where i: "i < length (legal_moves ?G [])"
      and r1: "fst (minimax ?G (Suc (Suc 0)) [] True)
        = (fst (fst (minimax ?G (Suc 0) (apply_move ?G [] (legal_moves ?G [] ! i)) (\<not> True))),
           Some (legal_moves ?G [] ! i))"
      and r2: "fst (alphabeta_root ?G (Suc (Suc 0)) [] True)
        = (fst (fst (minimax ?G (Suc 0) (apply_move ?G [] (legal_moves ?G [] ! i)) (\<not> True))),
           Some (legal_moves ?G [] ! i))"
    by blast
  have s1: "snd (fst (minimax ?G (Suc (Suc 0)) [] True)) = Some (legal_moves ?G [] ! i)"
    by (simp only: r1 snd_conv)
  have s2: "snd (fst (alphabeta_root ?G (Suc (Suc 0)) [] True)) = Some (legal_moves ?G [] ! i)"
    by (simp only: r2 snd_conv)
  have ex: "\<exists>i < length (legal_moves ?G []).
          snd (fst (minimax ?G (Suc (Suc 0)) [] True)) = Some (legal_moves ?G [] ! i) \<and>
          snd (fst (alphabeta_root ?G (Suc (Suc 0)) [] True)) = Some (legal_moves ?G [] ! i)"
    using i s1 s2 by (intro exI [of _ i] conjI)
  from h c1 c2 mm ex show ?thesis
    unfolding Let_def by (intro conjI)
qed

end
